theory Spec2Isabelle
  imports Main
begin

section \<open>Branchless lower bound (binary_search.h)\<close>

text \<open>
  The iterator range \<open>[low, up)\<close> is modelled by the list of its elements, so
  \<open>up - low\<close> is the length of the list and \<open>*(low + j)\<close> is \<open>xs ! j\<close>.
  The comparator is a parameter, as in the template.  \<open>lb_loop\<close> is the
  \<^verbatim>\<open>while (auto half = l / 2)\<close> loop on the loop variables \<open>i\<close> and \<open>l\<close>.
\<close>

function lb_loop :: "('a \<Rightarrow> 'a \<Rightarrow> bool) \<Rightarrow> 'a list \<Rightarrow> 'a \<Rightarrow> nat \<Rightarrow> nat \<Rightarrow> nat" where
  "lb_loop cmp xs val i l =
     (let half = l div 2 in
      if half \<noteq> 0
      then lb_loop cmp xs val (if cmp (xs ! (i + half)) val then i + half else i) (l - half)
      else i)"
  by pat_completeness auto
termination
  by (relation "measure (\<lambda>(cmp, xs, val, i, l). l)") auto

declare lb_loop.simps [simp del]

definition lower_bound_branchless :: "('a \<Rightarrow> 'a \<Rightarrow> bool) \<Rightarrow> 'a list \<Rightarrow> 'a \<Rightarrow> nat" where
  "lower_bound_branchless cmp xs val =
     (let l = length xs in
      if l = 0 then 0
      else let i = lb_loop cmp xs val 0 l in
           if cmp (xs ! i) val then i + 1 else i)"

text \<open>
  The reference the spec compares with (\<^verbatim>\<open>std::lower_bound\<close> in the test): the
  index of the first element that is not less than the value, the length if there is
  none.  This definition follows the spec's words, not the source.
\<close>

definition reference_lower_bound :: "('a \<Rightarrow> 'a \<Rightarrow> bool) \<Rightarrow> 'a list \<Rightarrow> 'a \<Rightarrow> nat" where
  "reference_lower_bound cmp xs val = length (takeWhile (\<lambda>x. cmp x val) xs)"

text \<open>A range is partitioned when the elements less than the value form a prefix.\<close>

definition partitioned :: "('a \<Rightarrow> 'a \<Rightarrow> bool) \<Rightarrow> 'a list \<Rightarrow> 'a \<Rightarrow> bool" where
  "partitioned cmp xs val \<longleftrightarrow>
     (\<forall>b < length xs. \<forall>a \<le> b. cmp (xs ! b) val \<longrightarrow> cmp (xs ! a) val)"

lemma reference_lower_bound_le: "reference_lower_bound cmp xs val \<le> length xs"
  by (simp add: reference_lower_bound_def length_takeWhile_le)

lemma reference_lower_bound_below:
  "j < reference_lower_bound cmp xs val \<Longrightarrow> cmp (xs ! j) val"
  unfolding reference_lower_bound_def
  using nth_mem [of j "takeWhile (\<lambda>x. cmp x val) xs"] set_takeWhileD [of "xs ! j" "\<lambda>x. cmp x val" xs]
  by (simp add: takeWhile_nth)

lemma reference_lower_bound_at:
  "reference_lower_bound cmp xs val < length xs \<Longrightarrow>
   \<not> cmp (xs ! reference_lower_bound cmp xs val) val"
  unfolding reference_lower_bound_def by (rule nth_length_takeWhile)

lemma reference_lower_bound_above:
  assumes "partitioned cmp xs val" and "j < length xs" and "cmp (xs ! j) val"
  shows "j < reference_lower_bound cmp xs val"
proof (rule ccontr)
  assume "\<not> j < reference_lower_bound cmp xs val"
  then have le: "reference_lower_bound cmp xs val \<le> j" by simp
  with assms(2) have "reference_lower_bound cmp xs val < length xs" by simp
  then have "\<not> cmp (xs ! reference_lower_bound cmp xs val) val"
    by (rule reference_lower_bound_at)
  moreover from assms le have "cmp (xs ! reference_lower_bound cmp xs val) val"
    unfolding partitioned_def by blast
  ultimately show False by simp
qed

text \<open>
  The loop invariant: the answer \<open>p\<close> lies in \<open>[i, i + l]\<close> and every read stays
  inside the range (\<open>i + l \<le> length xs\<close>).
\<close>

lemma lb_loop_invariant:
  "partitioned cmp xs val \<Longrightarrow> 0 < l \<Longrightarrow> i + l \<le> length xs \<Longrightarrow> i \<le> reference_lower_bound cmp xs val \<Longrightarrow>
         reference_lower_bound cmp xs val \<le> i + l \<Longrightarrow>
         lb_loop cmp xs val i l < length xs \<and>
         lb_loop cmp xs val i l \<le> reference_lower_bound cmp xs val \<and>
         reference_lower_bound cmp xs val \<le> lb_loop cmp xs val i l + 1"
proof (induction cmp xs val i l rule: lb_loop.induct)
  case (1 cmp xs val i l)
  let ?p = "reference_lower_bound cmp xs val"
  let ?half = "l div 2"
  note part = "1.prems"(1) and lpos = "1.prems"(2) and le_len = "1.prems"(3)
    and p_lower = "1.prems"(4) and p_upper = "1.prems"(5)
  show ?case
  proof (cases "?half \<noteq> 0")
    case False
    then have "l = 1" using lpos by presburger
    moreover have "lb_loop cmp xs val i l = i"
      using False by (subst lb_loop.simps) (simp add: Let_def)
    ultimately show ?thesis using "1.prems" by simp
  next
    case True
    let ?i' = "if cmp (xs ! (i + ?half)) val then i + ?half else i"
    have in_range: "i + ?half < length xs" using lpos le_len by presburger
    have pos: "0 < l - ?half" using lpos by presburger
    have bound: "?i' + (l - ?half) \<le> length xs" using lpos le_len by auto
    have lower: "?i' \<le> ?p"
      using reference_lower_bound_above [OF part in_range] p_lower
      by (auto simp: less_imp_le)
    have upper: "?p \<le> ?i' + (l - ?half)"
    proof (cases "cmp (xs ! (i + ?half)) val")
      case True
      then show ?thesis using p_upper by simp
    next
      case False
      have "\<not> i + ?half < ?p"
        using reference_lower_bound_below [of "i + ?half" cmp xs val] False by blast
      then show ?thesis using False by simp
    qed
    have "lb_loop cmp xs val i l = lb_loop cmp xs val ?i' (l - ?half)"
      using True by (subst lb_loop.simps) (simp add: Let_def)
    moreover have "lb_loop cmp xs val ?i' (l - ?half) < length xs \<and>
         lb_loop cmp xs val ?i' (l - ?half) \<le> ?p \<and> ?p \<le> lb_loop cmp xs val ?i' (l - ?half) + 1"
      using "1.IH" [OF refl True part pos bound lower upper] .
    ultimately show ?thesis by simp
  qed
qed

lemma lower_bound_branchless_partitioned:
  assumes "partitioned cmp xs val"
  shows "lower_bound_branchless cmp xs val = reference_lower_bound cmp xs val"
proof (cases "length xs = 0")
  case True
  then show ?thesis
    by (simp add: lower_bound_branchless_def reference_lower_bound_def)
next
  case False
  let ?p = "reference_lower_bound cmp xs val"
  let ?r = "lb_loop cmp xs val 0 (length xs)"
  have inv: "?r < length xs \<and> ?r \<le> ?p \<and> ?p \<le> ?r + 1"
    using lb_loop_invariant [OF assms, of "length xs" 0] False
    by (simp add: reference_lower_bound_le)
  show ?thesis
  proof (cases "cmp (xs ! ?r) val")
    case True
    with inv have "?r < ?p" using reference_lower_bound_above [OF assms] by blast
    with inv True False show ?thesis
      by (simp add: lower_bound_branchless_def Let_def)
  next
    case nless: False
    have "\<not> ?r < ?p" using reference_lower_bound_below [of ?r cmp xs val] nless by blast
    with inv nless False show ?thesis
      by (simp add: lower_bound_branchless_def Let_def)
  qed
qed

lemma sorted_partitioned: "sorted xs \<Longrightarrow> partitioned (<) xs (val :: 'a :: linorder)"
  unfolding partitioned_def
  by (metis le_less_trans sorted_nth_mono)

lemma lower_bound_branchless_sorted:
  "sorted xs \<Longrightarrow> lower_bound_branchless (<) xs val = reference_lower_bound (<) xs (val :: 'a :: linorder)"
  by (rule lower_bound_branchless_partitioned [OF sorted_partitioned])

text \<open>
  C2.  For every sorted range \<open>xs\<close> (under the comparator \<open><\<close>) and every value,
  \<open>lower_bound_branchless\<close> equals the reference lower bound, and the result \<open>i\<close> is
  the smallest index in \<open>[0, length xs]\<close> whose element is not less than the value:
  \<open>i \<le> length xs\<close>, every element before \<open>i\<close> is less than the value, and every
  element from \<open>i\<close> on is at least the value (so \<open>i = length xs\<close> when there is
  none, and \<open>i = 0\<close> on the empty range).
\<close>

theorem lower_bound_branchless_correct:
  fixes xs :: "'a :: linorder list"
  assumes "sorted xs"
  shows "lower_bound_branchless (<) xs val = reference_lower_bound (<) xs val
       \<and> lower_bound_branchless (<) xs val \<le> length xs
       \<and> (\<forall>j < lower_bound_branchless (<) xs val. xs ! j < val)
       \<and> (\<forall>j < length xs. lower_bound_branchless (<) xs val \<le> j \<longrightarrow> val \<le> xs ! j)"
proof -
  let ?p = "reference_lower_bound (<) xs val"
  have eq: "lower_bound_branchless (<) xs val = ?p"
    using assms by (rule lower_bound_branchless_sorted)
  have "\<forall>j < length xs. ?p \<le> j \<longrightarrow> val \<le> xs ! j"
  proof (intro allI impI)
    fix j assume "j < length xs" "?p \<le> j"
    then have "\<not> xs ! j < val"
      using reference_lower_bound_above [OF sorted_partitioned [OF assms], of j val] by auto
    then show "val \<le> xs ! j" by simp
  qed
  then show ?thesis
    using eq reference_lower_bound_le [of "(<)" xs val] reference_lower_bound_below [of _ "(<)" xs val]
    by simp
qed

theorem lower_bound_branchless_correct_witness:
  "sorted [1, 3, 5, 7 :: nat]
   \<and> lower_bound_branchless (<) [1, 3, 5, 7 :: nat] 4 = 2
   \<and> reference_lower_bound (<) [1, 3, 5, 7 :: nat] 4 = 2
   \<and> lower_bound_branchless (<) ([] :: nat list) 4 = 0"
proof -
  have s: "sorted [1, 3, 5, 7 :: nat]" by simp
  have r: "reference_lower_bound (<) [1, 3, 5, 7 :: nat] 4 = 2"
    by (simp add: reference_lower_bound_def)
  have e: "lower_bound_branchless (<) ([] :: nat list) 4 = 0"
    by (simp add: lower_bound_branchless_def)
  show ?thesis
    using s r e lower_bound_branchless_correct [OF s, of 4] by simp
qed

section \<open>B+tree nodes (btree.h)\<close>

text \<open>
  Failing assertions and accesses outside an array are results of the model:
  \<open>Inl AssertionFailed\<close> is a tripped \<^verbatim>\<open>assert\<close>, \<open>Inl OutOfBounds\<close> is the read
  \<^verbatim>\<open>keys[newCount - 1]\<close> with \<open>newCount = 0\<close> or a write past the last of the
  \<open>kCapacity\<close> slots of an array.
\<close>

datatype error = AssertionFailed | OutOfBounds

text \<open>
  \<^verbatim>\<open>memmove(&a[dst], &a[src], n * sizeof(T))\<close> on an array modelled as a list: the \<open>n\<close>
  elements from \<open>src\<close> are copied to \<open>dst\<close>, the ranges may overlap.  The loop of
  \<^verbatim>\<open>split\<close>, \<^verbatim>\<open>for (i = newCount; i < count; ++i) other[i - newCount] = a[i]\<close>, is
  \<open>copy_upper\<close>, run once for each of the two arrays it fills.
\<close>

definition memmove :: "'a list \<Rightarrow> nat \<Rightarrow> nat \<Rightarrow> nat \<Rightarrow> 'a list" where
  "memmove xs dst src n = take dst xs @ take n (drop src xs) @ drop (dst + n) xs"

function copy_upper :: "'a list \<Rightarrow> nat \<Rightarrow> nat \<Rightarrow> nat \<Rightarrow> 'a list \<Rightarrow> 'a list" where
  "copy_upper src newCount cnt i dst =
     (if i < cnt then copy_upper src newCount cnt (i + 1) (dst[i - newCount := src ! i]) else dst)"
  by pat_completeness auto
termination
  by (relation "measure (\<lambda>(src, newCount, cnt, i, dst). cnt - i)") auto

declare copy_upper.simps [simp del]

lemma length_memmove:
  "src + n \<le> length xs \<Longrightarrow> dst + n \<le> length xs \<Longrightarrow> length (memmove xs dst src n) = length xs"
  by (simp add: memmove_def)

lemma memmove_shift_right:
  assumes "i \<le> c" "c < length xs"
  shows "take (Suc c) ((memmove xs (Suc i) i (c - i))[i := v]) = take i xs @ v # drop i (take c xs)"
proof -
  have a: "take (Suc i) xs = take i xs @ [xs ! i]"
    using assms by (simp add: take_Suc_conv_app_nth)
  have len: "length (take i xs) = i" using assms by simp
  have m: "memmove xs (Suc i) i (c - i) = take i xs @ [xs ! i] @ take (c - i) (drop i xs) @ drop (Suc c) xs"
    using assms by (simp add: memmove_def a)
  have u: "(memmove xs (Suc i) i (c - i))[i := v] = take i xs @ [v] @ take (c - i) (drop i xs) @ drop (Suc c) xs"
    unfolding m using len by (simp add: list_update_append)
  have l: "length (take i xs @ [v] @ take (c - i) (drop i xs)) = Suc c" using assms by simp
  have "take (Suc c) ((take i xs @ [v] @ take (c - i) (drop i xs)) @ drop (Suc c) xs)
        = take i xs @ [v] @ take (c - i) (drop i xs)"
    using l by (metis append_eq_conv_conj)
  then show ?thesis unfolding u by (simp add: drop_take)
qed

lemma memmove_shift_right_child:
  assumes "i < c" "c < length xs"
  shows "take (Suc c) ((memmove xs (Suc i) i (c - i))[Suc i := v]) = take (Suc i) xs @ v # drop (Suc i) (take c xs)"
proof -
  have a: "take (Suc i) xs = take i xs @ [xs ! i]"
    using assms by (simp add: take_Suc_conv_app_nth)
  have d: "take (c - i) (drop i xs) = xs ! i # take (c - Suc i) (drop (Suc i) xs)"
    using assms by (metis Cons_nth_drop_Suc Suc_diff_Suc less_trans take_Suc_Cons)
  have len: "length (take (Suc i) xs) = Suc i" using assms by simp
  have m: "memmove xs (Suc i) i (c - i) = take (Suc i) xs @ [xs ! i] @ take (c - Suc i) (drop (Suc i) xs) @ drop (Suc c) xs"
    using assms by (simp add: memmove_def d)
  have u: "(memmove xs (Suc i) i (c - i))[Suc i := v] = take (Suc i) xs @ [v] @ take (c - Suc i) (drop (Suc i) xs) @ drop (Suc c) xs"
    unfolding m using len by (simp add: list_update_append del: take_Suc_conv_app_nth)
  have l: "length (take (Suc i) xs @ [v] @ take (c - Suc i) (drop (Suc i) xs)) = Suc c" using assms by simp
  have "take (Suc c) ((take (Suc i) xs @ [v] @ take (c - Suc i) (drop (Suc i) xs)) @ drop (Suc c) xs)
        = take (Suc i) xs @ [v] @ take (c - Suc i) (drop (Suc i) xs)"
    using l by (metis append_eq_conv_conj)
  then show ?thesis unfolding u by (simp add: drop_take)
qed

lemma memmove_shift_left:
  assumes "Suc i < c" "c \<le> length xs"
  shows "take (c - 1) (memmove xs i (Suc i) (c - Suc i)) = take i xs @ drop (Suc i) (take c xs)"
proof -
  have m: "memmove xs i (Suc i) (c - Suc i) = (take i xs @ take (c - Suc i) (drop (Suc i) xs)) @ drop (c - 1) xs"
    using assms by (simp add: memmove_def)
  have l: "length (take i xs @ take (c - Suc i) (drop (Suc i) xs)) = c - 1" using assms by simp
  have "take (c - 1) ((take i xs @ take (c - Suc i) (drop (Suc i) xs)) @ drop (c - 1) xs)
        = take i xs @ take (c - Suc i) (drop (Suc i) xs)"
    using l by (metis append_eq_conv_conj)
  then show ?thesis unfolding m by (simp add: drop_take)
qed

lemma length_copy_upper: "length (copy_upper src newCount cnt i dst) = length dst"
  by (induction src newCount cnt i dst rule: copy_upper.induct)
     (subst copy_upper.simps, simp)

lemma copy_upper_nth:
  "newCount \<le> i \<Longrightarrow> cnt - newCount \<le> length dst \<Longrightarrow> j < length dst \<Longrightarrow>
   copy_upper src newCount cnt i dst ! j =
     (if i - newCount \<le> j \<and> j < cnt - newCount then src ! (j + newCount) else dst ! j)"
proof (induction src newCount cnt i dst rule: copy_upper.induct)
  case (1 src newCount cnt i dst)
  show ?case
  proof (cases "i < cnt")
    case True
    have "copy_upper src newCount cnt i dst = copy_upper src newCount cnt (i + 1) (dst[i - newCount := src ! i])"
      using True by (subst copy_upper.simps) simp
    then show ?thesis using 1 True
      by (auto simp: nth_list_update)
  next
    case False
    then show ?thesis using 1
      by (subst copy_upper.simps) auto
  qed
qed

lemma take_copy_upper:
  assumes "newCount \<le> cnt" "cnt \<le> length src" "cnt - newCount \<le> length dst"
  shows "take (cnt - newCount) (copy_upper src newCount cnt newCount dst) = drop newCount (take cnt src)"
  using assms
  by (simp add: list_eq_iff_nth_eq length_copy_upper copy_upper_nth add.commute)

text \<open>
  \<^verbatim>\<open>struct Node\<close> is the header of every page; \<^verbatim>\<open>InnerNode\<close> and \<^verbatim>\<open>LeafNode\<close> extend it
  with two arrays of \<open>kCapacity\<close> slots each.  \<open>kCapacity\<close> is a compile-time constant of
  the template and a parameter here.  The field \<open>count\<close> is a \<^verbatim>\<open>uint16_t\<close>: the increment
  is written with its wrap-around.  A separator key and a value are compared with \<open><\<close>
  (\<^verbatim>\<open>ComparatorT = std::less\<close>) and \<open>=\<close>.
\<close>

type_synonym pid = nat

record node =
  level :: nat
  count :: nat

definition is_leaf :: "'a node_scheme \<Rightarrow> bool" where
  "is_leaf n \<longleftrightarrow> level n = 0"

record 'k inner_node = node +
  keys :: "'k list"
  children :: "pid list"

definition inner_has_space :: "nat \<Rightarrow> 'k inner_node \<Rightarrow> bool" where
  "inner_has_space kCapacity n \<longleftrightarrow> count n < kCapacity"

definition inner_lower_bound :: "('k :: linorder) inner_node \<Rightarrow> 'k \<Rightarrow> nat \<times> bool" where
  "inner_lower_bound n key =
     (if count n = 0 then (0, False)
      else let i = lower_bound_branchless (<) (take (count n - 1) (keys n)) key
           in (i, i < count n - 1 \<and> keys n ! i = key))"

text \<open>
  \<^verbatim>\<open>insert_split\<close> writes \<^verbatim>\<open>children[pos.first + 1]\<close>.  Behind the assertion
  \<open>count < kCapacity\<close> that index is a slot of the array except for an empty node of
  capacity 1, where it is \<open>kCapacity\<close>: \<open>Inl OutOfBounds\<close>.
\<close>

definition insert_split :: "nat \<Rightarrow> ('k :: linorder) inner_node \<Rightarrow> 'k \<Rightarrow> pid \<Rightarrow> error + 'k inner_node" where
  "insert_split kCapacity n key split_page =
     (if \<not> inner_has_space kCapacity n then Inl AssertionFailed
      else let pos = inner_lower_bound n key in
        if snd pos then Inl AssertionFailed
        else let i = fst pos;
                 ks = (if i + 1 < count n then memmove (keys n) (i + 1) i (count n - i - 1) else keys n);
                 cs = (if i + 1 < count n then memmove (children n) (i + 1) i (count n - i) else children n)
             in if \<not> i + 1 < kCapacity then Inl OutOfBounds
                else Inr (n\<lparr>count := (count n + 1) mod 65536,
                            keys := ks[i := key],
                            children := cs[i + 1 := split_page]\<rparr>))"

definition inner_split :: "'k inner_node \<Rightarrow> 'k inner_node \<Rightarrow> error + ('k inner_node \<times> 'k inner_node \<times> 'k)" where
  "inner_split n buffer =
     (let other_count = count n div 2;
          newCount = count n - other_count;
          other = buffer\<lparr>level := level n, count := other_count,
                          keys := copy_upper (keys n) newCount (count n) newCount (keys buffer),
                          children := copy_upper (children n) newCount (count n) newCount (children buffer)\<rparr>
      in if newCount = 0 then Inl OutOfBounds
         else Inr (n\<lparr>count := newCount\<rparr>, other, keys n ! (newCount - 1)))"

text \<open>
  \<^verbatim>\<open>get_key_vector\<close> of an inner node collects the slots \<open>keys[0 .. count - 1)\<close>.  It is
  used below for nodes with at least one child only: with \<open>count = 0\<close> the loop bound
  \<open>count - 1\<close> of the source wraps around and the loop leaves the array.
\<close>

definition inner_get_key_vector :: "'k inner_node \<Rightarrow> 'k list" where
  "inner_get_key_vector n = take (count n - 1) (keys n)"

definition inner_get_children_vector :: "'k inner_node \<Rightarrow> pid list" where
  "inner_get_children_vector n = take (count n) (children n)"

record ('k, 'v) leaf_node = node +
  keys :: "'k list"
  "values" :: "'v list"

definition leaf_has_space :: "nat \<Rightarrow> ('k, 'v) leaf_node \<Rightarrow> bool" where
  "leaf_has_space kCapacity n \<longleftrightarrow> count n < kCapacity"

definition leaf_lower_bound :: "('k :: linorder, 'v) leaf_node \<Rightarrow> 'k \<Rightarrow> nat \<times> bool" where
  "leaf_lower_bound n key =
     (if count n = 0 then (0, False)
      else let i = lower_bound_branchless (<) (take (count n) (leaf_node.keys n)) key
           in (i, i < count n \<and> leaf_node.keys n ! i = key))"

text \<open>
  \<^verbatim>\<open>LeafNode::insert\<close> begins with \<^verbatim>\<open>assert(has_space())\<close>.  \<open>leaf_insert_ndebug\<close> is the
  function as it is compiled with \<^verbatim>\<open>NDEBUG\<close>, where the assertion expands to nothing:
  an already-present key has its value overwritten, and a new key in a full leaf makes
  \<^verbatim>\<open>memmove\<close> write the slot \<open>kCapacity\<close>, past the arrays.  \<open>leaf_insert\<close> is the
  function with the assertion compiled in.
\<close>

definition leaf_insert_ndebug :: "nat \<Rightarrow> ('k :: linorder, 'v) leaf_node \<Rightarrow> 'k \<Rightarrow> 'v \<Rightarrow> error + ('k, 'v) leaf_node" where
  "leaf_insert_ndebug kCapacity n key val =
     (let pos = leaf_lower_bound n key; i = fst pos in
        if snd pos then Inr (n\<lparr>values := (values n)[i := val]\<rparr>)
        else if \<not> count n < kCapacity then Inl OutOfBounds
        else Inr (n\<lparr>count := (count n + 1) mod 65536,
                     leaf_node.keys := (memmove (leaf_node.keys n) (i + 1) i (count n - i))[i := key],
                     values := (memmove (values n) (i + 1) i (count n - i))[i := val]\<rparr>))"

definition leaf_insert :: "nat \<Rightarrow> ('k :: linorder, 'v) leaf_node \<Rightarrow> 'k \<Rightarrow> 'v \<Rightarrow> error + ('k, 'v) leaf_node" where
  "leaf_insert kCapacity n key val =
     (if \<not> leaf_has_space kCapacity n then Inl AssertionFailed
      else leaf_insert_ndebug kCapacity n key val)"

definition leaf_erase :: "('k :: linorder, 'v) leaf_node \<Rightarrow> 'k \<Rightarrow> error + (('k, 'v) leaf_node \<times> bool)" where
  "leaf_erase n key =
     (if count n = 0 then Inr (n, False)
      else let pos = leaf_lower_bound n key; i = fst pos in
        if \<not> snd pos then Inr (n, False)
        else if leaf_node.keys n ! i < key then Inl AssertionFailed
        else let ks = (if count n > i + 1 then memmove (leaf_node.keys n) i (i + 1) (count n - (i + 1)) else leaf_node.keys n);
                 vs = (if count n > i + 1 then memmove (values n) i (i + 1) (count n - (i + 1)) else values n)
             in Inr (n\<lparr>count := count n - 1, leaf_node.keys := ks, values := vs\<rparr>, True))"

definition leaf_split :: "('k, 'v) leaf_node \<Rightarrow> ('k, 'v) leaf_node \<Rightarrow> error + (('k, 'v) leaf_node \<times> ('k, 'v) leaf_node \<times> 'k)" where
  "leaf_split n buffer =
     (let other_count = count n div 2;
          newCount = count n - other_count;
          other = buffer\<lparr>level := level n, count := other_count,
                          leaf_node.keys := copy_upper (leaf_node.keys n) newCount (count n) newCount (leaf_node.keys buffer),
                          values := copy_upper (values n) newCount (count n) newCount (values buffer)\<rparr>
      in if newCount = 0 then Inl OutOfBounds
         else Inr (n\<lparr>count := newCount\<rparr>, other, leaf_node.keys n ! (newCount - 1)))"

definition leaf_get_key_vector :: "('k, 'v) leaf_node \<Rightarrow> 'k list" where
  "leaf_get_key_vector n = take (count n) (leaf_node.keys n)"

definition leaf_get_value_vector :: "('k, 'v) leaf_node \<Rightarrow> 'v list" where
  "leaf_get_value_vector n = take (count n) (values n)"

text \<open>
  The two nodes as \<^verbatim>\<open>split\<close> leaves them, before it reads the separator for its return
  value: the node itself with the lower part and the buffer with the upper part.
\<close>

definition leaf_split_nodes :: "('k, 'v) leaf_node \<Rightarrow> ('k, 'v) leaf_node \<Rightarrow> ('k, 'v) leaf_node \<times> ('k, 'v) leaf_node" where
  "leaf_split_nodes n buffer =
     (let other_count = count n div 2;
          newCount = count n - other_count;
          other = buffer\<lparr>level := level n, count := other_count,
                          leaf_node.keys := copy_upper (leaf_node.keys n) newCount (count n) newCount (leaf_node.keys buffer),
                          values := copy_upper (values n) newCount (count n) newCount (values buffer)\<rparr>
      in (n\<lparr>count := newCount\<rparr>, other))"

definition inner_split_nodes :: "'k inner_node \<Rightarrow> 'k inner_node \<Rightarrow> 'k inner_node \<times> 'k inner_node" where
  "inner_split_nodes n buffer =
     (let other_count = count n div 2;
          newCount = count n - other_count;
          other = buffer\<lparr>level := level n, count := other_count,
                          inner_node.keys := copy_upper (inner_node.keys n) newCount (count n) newCount (inner_node.keys buffer),
                          children := copy_upper (children n) newCount (count n) newCount (children buffer)\<rparr>
      in (n\<lparr>count := newCount\<rparr>, other))"

text \<open>
  The separator keys of an inner node are the slots that \<^verbatim>\<open>InnerNode::lower_bound\<close>
  searches: none when \<open>count\<close> is 0, the slots \<open>keys[0 .. count - 1)\<close> otherwise.
\<close>

definition inner_keys :: "'k inner_node \<Rightarrow> 'k list" where
  "inner_keys n = (if count n = 0 then [] else take (count n - 1) (inner_node.keys n))"

text \<open>
  A node object is well formed when its arrays have \<open>kCapacity\<close> slots, \<open>count\<close> does not
  exceed them, and \<open>kCapacity\<close> fits the 16-bit \<open>count\<close>.
\<close>

definition leaf_wf :: "nat \<Rightarrow> ('k, 'v) leaf_node \<Rightarrow> bool" where
  "leaf_wf kCapacity n \<longleftrightarrow>
     kCapacity < 65536 \<and> count n \<le> kCapacity \<and>
     length (leaf_node.keys n) = kCapacity \<and> length (values n) = kCapacity"

definition inner_wf :: "nat \<Rightarrow> 'k inner_node \<Rightarrow> bool" where
  "inner_wf kCapacity n \<longleftrightarrow>
     kCapacity < 65536 \<and> count n \<le> kCapacity \<and>
     length (inner_node.keys n) = kCapacity \<and> length (children n) = kCapacity"


lemma lb_le_length:
  "sorted_wrt (<) xs \<Longrightarrow> lower_bound_branchless (<) xs (key :: 'k :: linorder) \<le> length xs"
  using lower_bound_branchless_sorted [of xs key] reference_lower_bound_le [of "(<)" xs key]
  by (simp add: strict_sorted_imp_sorted)

lemma lb_take_less:
  assumes "sorted_wrt (<) xs" and "x \<in> set (take (lower_bound_branchless (<) xs key) xs)"
  shows "x < (key :: 'k :: linorder)"
proof -
  from assms(2) obtain j where "j < lower_bound_branchless (<) xs key" "j < length xs" "x = xs ! j"
    by (auto simp: in_set_conv_nth)
  then show ?thesis
    using lower_bound_branchless_sorted [of xs key] reference_lower_bound_below [of j "(<)" xs key] assms(1)
    by (simp add: strict_sorted_imp_sorted)
qed

lemma lb_drop_ge:
  assumes "sorted_wrt (<) xs" and "x \<in> set (drop (lower_bound_branchless (<) xs key) xs)"
  shows "(key :: 'k :: linorder) \<le> x"
proof -
  let ?i = "lower_bound_branchless (<) xs key"
  from assms(2) obtain j where j: "j < length xs - ?i" "x = xs ! (?i + j)"
    by (auto simp: in_set_conv_nth)
  have s: "sorted xs" using assms(1) by (rule strict_sorted_imp_sorted)
  have lt: "?i + j < length xs" using j(1) by simp
  have "xs ! (?i + j) < key \<Longrightarrow> ?i + j < ?i"
    using reference_lower_bound_above [OF sorted_partitioned [OF s] lt, of key]
      lower_bound_branchless_sorted [OF s, of key] by simp
  then have "\<not> xs ! (?i + j) < key" by auto
  then show ?thesis using j(2) by simp
qed

lemma lb_found_iff:
  assumes "sorted_wrt (<) xs"
  shows "(lower_bound_branchless (<) xs key < length xs \<and> xs ! lower_bound_branchless (<) xs key = key)
         \<longleftrightarrow> (key :: 'k :: linorder) \<in> set xs"
proof
  assume "lower_bound_branchless (<) xs key < length xs \<and> xs ! lower_bound_branchless (<) xs key = key"
  then show "key \<in> set xs" by (metis nth_mem)
next
  let ?i = "lower_bound_branchless (<) xs key"
  assume "key \<in> set xs"
  then have "key \<in> set (take ?i xs) \<or> key \<in> set (drop ?i xs)"
    by (metis Un_iff append_take_drop_id set_append)
  then have mem: "key \<in> set (drop ?i xs)"
    using lb_take_less [OF assms, of key key] by auto
  then have lt: "?i < length xs" by (cases "?i < length xs") auto
  have "xs ! ?i \<in> set (drop ?i xs)" using lt by (metis Cons_nth_drop_Suc list.set_intros(1))
  then have ge: "key \<le> xs ! ?i" using lb_drop_ge [OF assms] by blast
  from mem obtain j where j: "j < length xs - ?i" "key = xs ! (?i + j)"
    by (auto simp: in_set_conv_nth)
  have "xs ! ?i \<le> xs ! (?i + j)"
    using strict_sorted_imp_sorted [OF assms] j(1) by (simp add: sorted_nth_mono)
  with ge j show "?i < length xs \<and> xs ! ?i = key" using lt by simp
qed

lemma lb_drop_greater:
  assumes "sorted_wrt (<) xs" and "(key :: 'k :: linorder) \<notin> set xs"
    and "x \<in> set (drop (lower_bound_branchless (<) xs key) xs)"
  shows "key < x"
proof -
  have "key \<le> x" using lb_drop_ge [OF assms(1,3)] .
  moreover have "x \<in> set xs" using assms(3) by (rule in_set_dropD)
  ultimately show ?thesis using assms(2) by (cases "key = x") auto
qed

lemma sorted_wrt_insert_at_lb:
  assumes "sorted_wrt (<) xs" and "(key :: 'k :: linorder) \<notin> set xs"
  shows "sorted_wrt (<) (take (lower_bound_branchless (<) xs key) xs @ key # drop (lower_bound_branchless (<) xs key) xs)"
proof -
  let ?i = "lower_bound_branchless (<) xs key"
  have "sorted_wrt (<) (take ?i xs @ drop ?i xs)" using assms(1) by simp
  then have parts: "sorted_wrt (<) (take ?i xs)" "sorted_wrt (<) (drop ?i xs)"
    "\<forall>x\<in>set (take ?i xs). \<forall>y\<in>set (drop ?i xs). x < y"
    unfolding sorted_wrt_append by blast+
  show ?thesis
    unfolding sorted_wrt_append
    using parts lb_take_less [OF assms(1)] lb_drop_greater [OF assms(1,2)]
    by auto
qed

lemma fst_leaf_lower_bound:
  "fst (leaf_lower_bound n key) = lower_bound_branchless (<) (leaf_get_key_vector n) key"
proof (cases "count n = 0")
  case True
  then show ?thesis
    by (simp add: leaf_lower_bound_def leaf_get_key_vector_def lower_bound_branchless_def)
next
  case False
  then show ?thesis
    by (simp add: leaf_lower_bound_def leaf_get_key_vector_def Let_def)
qed

lemma snd_leaf_lower_bound:
  assumes "sorted_wrt (<) (leaf_get_key_vector n)" and "count n \<le> length (leaf_node.keys n)"
  shows "snd (leaf_lower_bound n key) \<longleftrightarrow> key \<in> set (leaf_get_key_vector n)"
proof (cases "count n = 0")
  case True
  then show ?thesis by (simp add: leaf_lower_bound_def leaf_get_key_vector_def)
next
  case False
  let ?xs = "leaf_get_key_vector n"
  let ?i = "lower_bound_branchless (<) ?xs key"
  have len: "length ?xs = count n" using assms(2) by (simp add: leaf_get_key_vector_def)
  have "snd (leaf_lower_bound n key) \<longleftrightarrow> (?i < count n \<and> leaf_node.keys n ! ?i = key)"
    using False by (simp add: leaf_lower_bound_def leaf_get_key_vector_def Let_def)
  also have "\<dots> \<longleftrightarrow> (?i < length ?xs \<and> ?xs ! ?i = key)"
    using len by (auto simp: leaf_get_key_vector_def)
  also have "\<dots> \<longleftrightarrow> key \<in> set ?xs" using assms(1) by (rule lb_found_iff)
  finally show ?thesis .
qed

lemma fst_leaf_lower_bound_le:
  assumes "sorted_wrt (<) (leaf_get_key_vector n)" and "count n \<le> length (leaf_node.keys n)"
  shows "fst (leaf_lower_bound n key) \<le> count n"
  using lb_le_length [OF assms(1), of key] assms(2)
  by (simp add: fst_leaf_lower_bound) (simp add: leaf_get_key_vector_def)

lemma leaf_insert_new:
  fixes n :: "('k :: linorder, 'v) leaf_node"
  assumes wf: "leaf_wf kCapacity n" and space: "leaf_has_space kCapacity n"
    and srt: "sorted_wrt (<) (leaf_get_key_vector n)" and new: "key \<notin> set (leaf_get_key_vector n)"
  defines "i \<equiv> lower_bound_branchless (<) (leaf_get_key_vector n) key"
  shows "\<exists>n'. leaf_insert kCapacity n key val = Inr n' \<and> count n' = count n + 1 \<and> level n' = level n
           \<and> leaf_wf kCapacity n'
           \<and> leaf_get_key_vector n' = take i (leaf_get_key_vector n) @ key # drop i (leaf_get_key_vector n)
           \<and> leaf_get_value_vector n' = take i (leaf_get_value_vector n) @ val # drop i (leaf_get_value_vector n)"
proof -
  let ?c = "count n"
  have c: "?c < kCapacity" "kCapacity < 65536" "length (leaf_node.keys n) = kCapacity" "length (values n) = kCapacity"
    using wf space by (auto simp: leaf_wf_def leaf_has_space_def)
  have le: "?c \<le> length (leaf_node.keys n)" using c by simp
  have i_le: "i \<le> ?c"
    using fst_leaf_lower_bound_le [OF srt le, of key] by (simp add: fst_leaf_lower_bound i_def)
  have nf: "\<not> snd (leaf_lower_bound n key)" using snd_leaf_lower_bound [OF srt le] new by simp
  have fi: "fst (leaf_lower_bound n key) = i" by (simp add: fst_leaf_lower_bound i_def)
  define n' where "n' = n\<lparr>count := ?c + 1,
                     leaf_node.keys := (memmove (leaf_node.keys n) (i + 1) i (?c - i))[i := key],
                     values := (memmove (values n) (i + 1) i (?c - i))[i := val]\<rparr>"
  have md: "(?c + 1) mod 65536 = ?c + 1" using c by simp
  have res: "leaf_insert kCapacity n key val = Inr n'"
    using space nf fi md c(1) by (simp add: leaf_insert_def leaf_insert_ndebug_def Let_def n'_def)
  have lk: "length (memmove (leaf_node.keys n) (i + 1) i (?c - i)) = kCapacity"
    using c i_le by (simp add: length_memmove)
  have lv: "length (memmove (values n) (i + 1) i (?c - i)) = kCapacity"
    using c i_le by (simp add: length_memmove)
  have wf': "leaf_wf kCapacity n'" using c lk lv by (simp add: leaf_wf_def n'_def)
  have k: "leaf_get_key_vector n' = take i (leaf_get_key_vector n) @ key # drop i (leaf_get_key_vector n)"
    using memmove_shift_right [of i ?c "leaf_node.keys n" key] i_le c
    by (simp add: leaf_get_key_vector_def n'_def min_absorb2)
  have v: "leaf_get_value_vector n' = take i (leaf_get_value_vector n) @ val # drop i (leaf_get_value_vector n)"
    using memmove_shift_right [of i ?c "values n" val] i_le c
    by (simp add: leaf_get_value_vector_def n'_def min_absorb2)
  show ?thesis using res wf' k v by (simp add: n'_def)
qed

lemma leaf_insert_ndebug_present:
  fixes n :: "('k :: linorder, 'v) leaf_node"
  assumes wf: "leaf_wf kCapacity n"
    and srt: "sorted_wrt (<) (leaf_get_key_vector n)" and old: "key \<in> set (leaf_get_key_vector n)"
  defines "i \<equiv> lower_bound_branchless (<) (leaf_get_key_vector n) key"
  shows "\<exists>n'. leaf_insert_ndebug kCapacity n key val = Inr n' \<and> count n' = count n \<and> level n' = level n
           \<and> leaf_wf kCapacity n'
           \<and> leaf_get_key_vector n' = leaf_get_key_vector n
           \<and> leaf_get_value_vector n' = (leaf_get_value_vector n)[i := val]
           \<and> i < count n \<and> leaf_get_key_vector n ! i = key"
proof -
  have le: "count n \<le> length (leaf_node.keys n)" using wf by (simp add: leaf_wf_def)
  have f: "snd (leaf_lower_bound n key)" using snd_leaf_lower_bound [OF srt le] old by simp
  have fi: "fst (leaf_lower_bound n key) = i" by (simp add: fst_leaf_lower_bound i_def)
  have len: "length (leaf_get_key_vector n) = count n" using le by (simp add: leaf_get_key_vector_def)
  have at: "i < count n \<and> leaf_get_key_vector n ! i = key"
    using lb_found_iff [OF srt, of key] old len by (simp add: i_def)
  have res: "leaf_insert_ndebug kCapacity n key val = Inr (n\<lparr>values := (values n)[i := val]\<rparr>)"
    using f fi by (simp add: leaf_insert_ndebug_def Let_def)
  show ?thesis using res wf at
    by (simp add: leaf_wf_def leaf_get_key_vector_def leaf_get_value_vector_def take_update_swap)
qed

lemma leaf_insert_present:
  fixes n :: "('k :: linorder, 'v) leaf_node"
  assumes wf: "leaf_wf kCapacity n" and space: "leaf_has_space kCapacity n"
    and srt: "sorted_wrt (<) (leaf_get_key_vector n)" and old: "key \<in> set (leaf_get_key_vector n)"
  defines "i \<equiv> lower_bound_branchless (<) (leaf_get_key_vector n) key"
  shows "\<exists>n'. leaf_insert kCapacity n key val = Inr n' \<and> count n' = count n \<and> level n' = level n
           \<and> leaf_wf kCapacity n'
           \<and> leaf_get_key_vector n' = leaf_get_key_vector n
           \<and> leaf_get_value_vector n' = (leaf_get_value_vector n)[i := val]
           \<and> i < count n \<and> leaf_get_key_vector n ! i = key"
  using leaf_insert_ndebug_present [OF wf srt old, of val] space
  unfolding i_def by (simp add: leaf_insert_def)

lemma leaf_erase_absent:
  fixes n :: "('k :: linorder, 'v) leaf_node"
  assumes le: "count n \<le> length (leaf_node.keys n)"
    and srt: "sorted_wrt (<) (leaf_get_key_vector n)" and new: "key \<notin> set (leaf_get_key_vector n)"
  shows "leaf_erase n key = Inr (n, False)"
  using snd_leaf_lower_bound [OF srt le, of key] new
  by (simp add: leaf_erase_def Let_def)

lemma leaf_erase_present:
  fixes n :: "('k :: linorder, 'v) leaf_node"
  assumes wf: "leaf_wf kCapacity n"
    and srt: "sorted_wrt (<) (leaf_get_key_vector n)" and old: "key \<in> set (leaf_get_key_vector n)"
  defines "i \<equiv> lower_bound_branchless (<) (leaf_get_key_vector n) key"
  shows "\<exists>n'. leaf_erase n key = Inr (n', True) \<and> count n' = count n - 1 \<and> level n' = level n
           \<and> leaf_wf kCapacity n'
           \<and> leaf_get_key_vector n' = take i (leaf_get_key_vector n) @ drop (Suc i) (leaf_get_key_vector n)
           \<and> leaf_get_value_vector n' = take i (leaf_get_value_vector n) @ drop (Suc i) (leaf_get_value_vector n)
           \<and> i < count n \<and> leaf_get_key_vector n ! i = key"
proof -
  let ?c = "count n"
  have c: "?c \<le> kCapacity" "length (leaf_node.keys n) = kCapacity" "length (values n) = kCapacity"
    using wf by (auto simp: leaf_wf_def)
  have le: "?c \<le> length (leaf_node.keys n)" using c by simp
  have f: "snd (leaf_lower_bound n key)" using snd_leaf_lower_bound [OF srt le] old by simp
  have fi: "fst (leaf_lower_bound n key) = i" by (simp add: fst_leaf_lower_bound i_def)
  have len: "length (leaf_get_key_vector n) = ?c" using le by (simp add: leaf_get_key_vector_def)
  have at: "i < ?c \<and> leaf_get_key_vector n ! i = key"
    using lb_found_iff [OF srt, of key] old len by (simp add: i_def)
  then have at': "leaf_node.keys n ! i = key" "?c \<noteq> 0" by (auto simp: leaf_get_key_vector_def)
  define ks where "ks = (if ?c > i + 1 then memmove (leaf_node.keys n) i (i + 1) (?c - (i + 1)) else leaf_node.keys n)"
  define vs where "vs = (if ?c > i + 1 then memmove (values n) i (i + 1) (?c - (i + 1)) else values n)"
  define n' where "n' = n\<lparr>count := ?c - 1, leaf_node.keys := ks, values := vs\<rparr>"
  have res: "leaf_erase n key = Inr (n', True)"
    using f fi at' by (simp add: leaf_erase_def Let_def n'_def ks_def vs_def)
  have lks: "length ks = kCapacity" using c at by (simp add: ks_def length_memmove)
  have lvs: "length vs = kCapacity" using c at by (simp add: vs_def length_memmove)
  have wf': "leaf_wf kCapacity n'" using wf c lks lvs by (simp add: leaf_wf_def n'_def)
  have shift: "\<And>xs :: 'a list. length xs = kCapacity \<Longrightarrow>
       take (?c - 1) (if ?c > i + 1 then memmove xs i (i + 1) (?c - (i + 1)) else xs)
       = take i (take ?c xs) @ drop (Suc i) (take ?c xs)" for dummy :: 'a
  proof -
    fix xs :: "'a list" assume l: "length xs = kCapacity"
    show "take (?c - 1) (if ?c > i + 1 then memmove xs i (i + 1) (?c - (i + 1)) else xs)
       = take i (take ?c xs) @ drop (Suc i) (take ?c xs)"
    proof (cases "?c > i + 1")
      case True
      then show ?thesis using memmove_shift_left [of i ?c xs] l c by (simp add: min_absorb2)
    next
      case False
      then have "?c = Suc i" using at by simp
      then show ?thesis using l c by (simp add: min_absorb2)
    qed
  qed
  have k: "leaf_get_key_vector n' = take i (leaf_get_key_vector n) @ drop (Suc i) (leaf_get_key_vector n)"
    using shift [OF c(2)] by (simp add: leaf_get_key_vector_def n'_def ks_def)
  have v: "leaf_get_value_vector n' = take i (leaf_get_value_vector n) @ drop (Suc i) (leaf_get_value_vector n)"
    using shift [OF c(3)] by (simp add: leaf_get_value_vector_def n'_def vs_def)
  show ?thesis using res wf' k v at by (simp add: n'_def)
qed

lemma leaf_split_effect:
  fixes n buffer :: "('k, 'v) leaf_node"
  assumes wf: "leaf_wf kCapacity n" and wfb: "leaf_wf kCapacity buffer" and pos: "1 \<le> count n"
  shows "\<exists>l r sep. leaf_split n buffer = Inr (l, r, sep)
           \<and> count l = count n - count n div 2 \<and> count r = count n div 2
           \<and> level l = level n \<and> level r = level n
           \<and> leaf_wf kCapacity l \<and> leaf_wf kCapacity r
           \<and> leaf_get_key_vector l = take (count n - count n div 2) (leaf_get_key_vector n)
           \<and> leaf_get_key_vector r = drop (count n - count n div 2) (leaf_get_key_vector n)
           \<and> leaf_get_value_vector l = take (count n - count n div 2) (leaf_get_value_vector n)
           \<and> leaf_get_value_vector r = drop (count n - count n div 2) (leaf_get_value_vector n)
           \<and> sep = leaf_node.keys l ! (count l - 1)
           \<and> sep = last (leaf_get_key_vector l)"
proof -
  let ?c = "count n"
  let ?nc = "?c - ?c div 2"
  have c: "?c \<le> kCapacity" "length (leaf_node.keys n) = kCapacity" "length (values n) = kCapacity"
    "length (leaf_node.keys buffer) = kCapacity" "length (values buffer) = kCapacity" "kCapacity < 65536"
    using wf wfb by (auto simp: leaf_wf_def)
  have nc: "0 < ?nc" "?nc \<le> ?c" "?c - ?nc = ?c div 2" using pos by presburger+
  have res: "leaf_split n buffer = Inr (n\<lparr>count := ?nc\<rparr>,
       buffer\<lparr>level := level n, count := ?c div 2,
                          leaf_node.keys := copy_upper (leaf_node.keys n) ?nc ?c ?nc (leaf_node.keys buffer),
                          values := copy_upper (values n) ?nc ?c ?nc (values buffer)\<rparr>,
       leaf_node.keys n ! (?nc - 1))"
    using nc by (simp add: leaf_split_def Let_def)
  have tk: "take (?c div 2) (copy_upper (leaf_node.keys n) ?nc ?c ?nc (leaf_node.keys buffer)) = drop ?nc (take ?c (leaf_node.keys n))"
    using take_copy_upper [of ?nc ?c "leaf_node.keys n" "leaf_node.keys buffer"] nc c by simp
  have tv: "take (?c div 2) (copy_upper (values n) ?nc ?c ?nc (values buffer)) = drop ?nc (take ?c (values n))"
    using take_copy_upper [of ?nc ?c "values n" "values buffer"] nc c by simp
  have ltk: "length (take ?nc (leaf_node.keys n)) = ?nc" using nc c by simp
  then have ne: "take ?nc (leaf_node.keys n) \<noteq> []" using nc by auto
  have "last (take ?nc (leaf_node.keys n)) = take ?nc (leaf_node.keys n) ! (?nc - 1)"
    using last_conv_nth [OF ne] ltk by simp
  then have lst: "last (take ?nc (leaf_node.keys n)) = leaf_node.keys n ! (?nc - 1)"
    using nc by simp
  show ?thesis
    unfolding res using nc c tk tv lst
    by (simp add: leaf_wf_def leaf_get_key_vector_def leaf_get_value_vector_def length_copy_upper min_absorb2 min_absorb1)
qed

lemma fst_inner_lower_bound:
  "fst (inner_lower_bound n key) = lower_bound_branchless (<) (inner_get_key_vector n) key"
proof (cases "count n = 0")
  case True
  then show ?thesis
    by (simp add: inner_lower_bound_def inner_get_key_vector_def lower_bound_branchless_def)
next
  case False
  then show ?thesis
    by (simp add: inner_lower_bound_def inner_get_key_vector_def Let_def)
qed

lemma snd_inner_lower_bound:
  assumes "sorted_wrt (<) (inner_get_key_vector n)" and "count n - 1 \<le> length (inner_node.keys n)"
  shows "snd (inner_lower_bound n key) \<longleftrightarrow> key \<in> set (inner_get_key_vector n)"
proof (cases "count n = 0")
  case True
  then show ?thesis by (simp add: inner_lower_bound_def inner_get_key_vector_def)
next
  case False
  let ?xs = "inner_get_key_vector n"
  let ?i = "lower_bound_branchless (<) ?xs key"
  have len: "length ?xs = count n - 1" using assms(2) by (simp add: inner_get_key_vector_def)
  have "snd (inner_lower_bound n key) \<longleftrightarrow> (?i < count n - 1 \<and> inner_node.keys n ! ?i = key)"
    using False by (simp add: inner_lower_bound_def inner_get_key_vector_def Let_def)
  also have "\<dots> \<longleftrightarrow> (?i < length ?xs \<and> ?xs ! ?i = key)"
    using len by (auto simp: inner_get_key_vector_def)
  also have "\<dots> \<longleftrightarrow> key \<in> set ?xs" using assms(1) by (rule lb_found_iff)
  finally show ?thesis .
qed

lemma fst_inner_lower_bound_le:
  assumes "sorted_wrt (<) (inner_get_key_vector n)" and "count n - 1 \<le> length (inner_node.keys n)"
  shows "fst (inner_lower_bound n key) \<le> count n - 1"
  using lb_le_length [OF assms(1), of key] assms(2)
  by (simp add: fst_inner_lower_bound) (simp add: inner_get_key_vector_def)

lemma insert_split_effect:
  fixes n :: "('k :: linorder) inner_node"
  assumes wf: "inner_wf kCapacity n" and space: "inner_has_space kCapacity n" and pos: "1 \<le> count n"
    and srt: "sorted_wrt (<) (inner_get_key_vector n)" and new: "key \<notin> set (inner_get_key_vector n)"
  defines "i \<equiv> lower_bound_branchless (<) (inner_get_key_vector n) key"
  shows "\<exists>n'. insert_split kCapacity n key split_page = Inr n' \<and> count n' = count n + 1 \<and> level n' = level n
           \<and> inner_wf kCapacity n' \<and> i < count n
           \<and> inner_get_key_vector n' = take i (inner_get_key_vector n) @ key # drop i (inner_get_key_vector n)
           \<and> inner_get_children_vector n' =
               take (Suc i) (inner_get_children_vector n) @ split_page # drop (Suc i) (inner_get_children_vector n)"
proof -
  let ?c = "count n"
  have c: "?c < kCapacity" "kCapacity < 65536" "length (inner_node.keys n) = kCapacity" "length (children n) = kCapacity"
    using wf space by (auto simp: inner_wf_def inner_has_space_def)
  have le: "?c - 1 \<le> length (inner_node.keys n)" using c by simp
  have i_le: "i \<le> ?c - 1"
    using fst_inner_lower_bound_le [OF srt le, of key] by (simp add: fst_inner_lower_bound i_def)
  then have i_lt: "i < ?c" using pos by simp
  have nf: "\<not> snd (inner_lower_bound n key)" using snd_inner_lower_bound [OF srt le] new by simp
  have fi: "fst (inner_lower_bound n key) = i" by (simp add: fst_inner_lower_bound i_def)
  define ks where "ks = (if i + 1 < ?c then memmove (inner_node.keys n) (i + 1) i (?c - i - 1) else inner_node.keys n)"
  define cs where "cs = (if i + 1 < ?c then memmove (children n) (i + 1) i (?c - i) else children n)"
  define n' where "n' = n\<lparr>count := ?c + 1, inner_node.keys := ks[i := key], children := cs[i + 1 := split_page]\<rparr>"
  have md: "(?c + 1) mod 65536 = ?c + 1" using c by simp
  have room: "i + 1 < kCapacity" using i_lt c(1) by simp
  have res: "insert_split kCapacity n key split_page = Inr n'"
    using space nf fi md room by (simp add: insert_split_def Let_def n'_def ks_def cs_def)
  have lk: "length ks = kCapacity" using c i_le by (simp add: ks_def length_memmove)
  have lc: "length cs = kCapacity" using c i_le by (simp add: cs_def length_memmove)
  have wf': "inner_wf kCapacity n'" using c lk lc by (simp add: inner_wf_def n'_def)
  have k: "take ?c (ks[i := key]) = take i (take (?c - 1) (inner_node.keys n)) @ key # drop i (take (?c - 1) (inner_node.keys n))"
  proof (cases "i + 1 < ?c")
    case True
    have "take (Suc (?c - 1)) ((memmove (inner_node.keys n) (Suc i) i (?c - 1 - i))[i := key])
          = take i (inner_node.keys n) @ key # drop i (take (?c - 1) (inner_node.keys n))"
      using i_le c by (intro memmove_shift_right) auto
    then show ?thesis using True i_le pos by (simp add: ks_def min_absorb2)
  next
    case False
    then have e: "i = ?c - 1" using i_le by simp
    have lt: "?c - 1 < length ((inner_node.keys n)[?c - 1 := key])" using c by simp
    have "take (Suc (?c - 1)) ((inner_node.keys n)[?c - 1 := key])
          = take (?c - 1) ((inner_node.keys n)[?c - 1 := key]) @ [(inner_node.keys n)[?c - 1 := key] ! (?c - 1)]"
      using lt by (rule take_Suc_conv_app_nth)
    then have "take ?c ((inner_node.keys n)[?c - 1 := key]) = take (?c - 1) (inner_node.keys n) @ [key]"
      using pos c by simp
    then show ?thesis using False e c by (simp add: ks_def)
  qed
  have ch: "take (Suc ?c) (cs[Suc i := split_page]) = take (Suc i) (take ?c (children n)) @ split_page # drop (Suc i) (take ?c (children n))"
  proof (cases "i + 1 < ?c")
    case True
    have "take (Suc ?c) ((memmove (children n) (Suc i) i (?c - i))[Suc i := split_page])
          = take (Suc i) (children n) @ split_page # drop (Suc i) (take ?c (children n))"
      using i_lt c by (intro memmove_shift_right_child) auto
    then show ?thesis using True i_lt by (simp add: cs_def min_absorb2 del: take_Suc_conv_app_nth)
  next
    case False
    then have e: "Suc i = ?c" using i_lt by simp
    have "take (Suc ?c) ((children n)[?c := split_page]) = take ?c (children n) @ [split_page]"
      using c by (simp add: take_Suc_conv_app_nth)
    then show ?thesis using False e c by (simp add: cs_def)
  qed
  show ?thesis using res wf' k ch i_lt
    by (simp add: n'_def inner_get_key_vector_def inner_get_children_vector_def)
qed

lemma inner_split_effect:
  fixes n buffer :: "'k inner_node"
  assumes wf: "inner_wf kCapacity n" and wfb: "inner_wf kCapacity buffer" and pos: "2 \<le> count n"
  shows "\<exists>l r sep. inner_split n buffer = Inr (l, r, sep)
           \<and> count l = count n - count n div 2 \<and> count r = count n div 2
           \<and> level l = level n \<and> level r = level n
           \<and> inner_wf kCapacity l \<and> inner_wf kCapacity r
           \<and> inner_get_children_vector l = take (count n - count n div 2) (inner_get_children_vector n)
           \<and> inner_get_children_vector r = drop (count n - count n div 2) (inner_get_children_vector n)
           \<and> inner_get_key_vector l = take (count n - count n div 2 - 1) (inner_get_key_vector n)
           \<and> inner_get_key_vector r = drop (count n - count n div 2) (inner_get_key_vector n)
           \<and> sep = inner_node.keys l ! (count l - 1)
           \<and> sep = inner_get_key_vector n ! (count n - count n div 2 - 1)
           \<and> count n - count n div 2 - 1 < length (inner_get_key_vector n)"
proof -
  let ?c = "count n"
  let ?nc = "?c - ?c div 2"
  have c: "?c \<le> kCapacity" "length (inner_node.keys n) = kCapacity" "length (children n) = kCapacity"
    "length (inner_node.keys buffer) = kCapacity" "length (children buffer) = kCapacity" "kCapacity < 65536"
    using wf wfb by (auto simp: inner_wf_def)
  have nc: "0 < ?nc" "?nc \<le> ?c" "?c - ?nc = ?c div 2" "?nc - 1 < ?c - 1" "0 < ?c div 2" "?nc + (?c div 2 - 1) = ?c - 1"
    using pos by presburger+
  have res: "inner_split n buffer = Inr (n\<lparr>count := ?nc\<rparr>,
       buffer\<lparr>level := level n, count := ?c div 2,
                          inner_node.keys := copy_upper (inner_node.keys n) ?nc ?c ?nc (inner_node.keys buffer),
                          children := copy_upper (children n) ?nc ?c ?nc (children buffer)\<rparr>,
       inner_node.keys n ! (?nc - 1))"
    using nc by (simp add: inner_split_def Let_def)
  have tk0: "take (?c div 2) (copy_upper (inner_node.keys n) ?nc ?c ?nc (inner_node.keys buffer)) = drop ?nc (take ?c (inner_node.keys n))"
    using take_copy_upper [of ?nc ?c "inner_node.keys n" "inner_node.keys buffer"] nc c by simp
  have "take (?c div 2 - 1) (take (?c div 2) (copy_upper (inner_node.keys n) ?nc ?c ?nc (inner_node.keys buffer)))
        = take (?c div 2 - 1) (drop ?nc (take ?c (inner_node.keys n)))"
    by (simp only: tk0)
  then have tk: "take (?c div 2 - 1) (copy_upper (inner_node.keys n) ?nc ?c ?nc (inner_node.keys buffer))
        = drop ?nc (take (?c - 1) (inner_node.keys n))"
    using nc by (simp add: min_absorb1 take_drop add.commute)
  have tv: "take (?c div 2) (copy_upper (children n) ?nc ?c ?nc (children buffer)) = drop ?nc (take ?c (children n))"
    using take_copy_upper [of ?nc ?c "children n" "children buffer"] nc c by simp
  have sep: "take (?c - 1) (inner_node.keys n) ! (?nc - 1) = inner_node.keys n ! (?nc - 1)"
    using nc by simp
  have len: "?nc - 1 < length (take (?c - 1) (inner_node.keys n))" using nc c by simp
  have bnd: "?nc \<le> kCapacity" "?c div 2 \<le> kCapacity" using c by auto
  show ?thesis
    unfolding res using nc c tk tv sep len bnd
    by (simp add: inner_wf_def inner_get_key_vector_def inner_get_children_vector_def length_copy_upper min_absorb2 min_absorb1)
qed

lemma sorted_wrt_take_drop_parts:
  assumes "sorted_wrt (<) (xs :: 'k :: linorder list)"
  shows "sorted_wrt (<) (take m xs)" "sorted_wrt (<) (drop m xs)"
    "\<forall>x\<in>set (take m xs). \<forall>y\<in>set (drop m xs). x < y"
proof -
  have "sorted_wrt (<) (take m xs @ drop m xs)" using assms by simp
  then show "sorted_wrt (<) (take m xs)" "sorted_wrt (<) (drop m xs)"
    "\<forall>x\<in>set (take m xs). \<forall>y\<in>set (drop m xs). x < y"
    unfolding sorted_wrt_append by blast+
qed

lemma sorted_wrt_remove_nth:
  assumes "sorted_wrt (<) (xs :: 'k :: linorder list)"
  shows "sorted_wrt (<) (take i xs @ drop (Suc i) xs)"
proof -
  have "set (drop (Suc i) xs) \<subseteq> set (drop i xs)" by (simp add: set_drop_subset_set_drop)
  then show ?thesis
    unfolding sorted_wrt_append
    using sorted_wrt_take_drop_parts [OF assms, of i] sorted_wrt_take_drop_parts(2) [OF assms, of "Suc i"]
    by blast
qed

text \<open>
  C3.  For every leaf with \<open>2 \<le> count \<le> kCapacity\<close> and strictly increasing keys,
  \<open>leaf_split\<close> leaves the original leaf with \<open>count - count div 2\<close> entries (the lower
  half), fills the buffer with a leaf of the same level holding the upper \<open>count div 2\<close>
  entries, and returns as separator the largest key kept on the left,
  \<open>keys[new_count - 1]\<close>; the key/value pairs of left and right together are the
  pairs before the split.
\<close>

theorem leaf_split_correct:
  fixes n buffer :: "('k :: linorder, 'v) leaf_node"
  assumes "leaf_wf kCapacity n" and "leaf_wf kCapacity buffer" and "2 \<le> count n"
    and "sorted_wrt (<) (leaf_get_key_vector n)"
  shows "\<exists>l r sep. leaf_split n buffer = Inr (l, r, sep)
           \<and> count l = count n - count n div 2 \<and> count r = count n div 2
           \<and> level l = level n \<and> level r = level n
           \<and> sep = leaf_node.keys l ! (count l - 1)
           \<and> sep \<in> set (leaf_get_key_vector l)
           \<and> (\<forall>k\<in>set (leaf_get_key_vector l). k \<le> sep)
           \<and> (\<forall>k\<in>set (leaf_get_key_vector r). sep < k)
           \<and> leaf_get_key_vector l @ leaf_get_key_vector r = leaf_get_key_vector n
           \<and> leaf_get_value_vector l @ leaf_get_value_vector r = leaf_get_value_vector n
           \<and> set (zip (leaf_get_key_vector l) (leaf_get_value_vector l))
               \<union> set (zip (leaf_get_key_vector r) (leaf_get_value_vector r))
             = set (zip (leaf_get_key_vector n) (leaf_get_value_vector n))"
proof -
  let ?c = "count n"
  let ?nc = "?c - ?c div 2"
  let ?ks = "leaf_get_key_vector n"
  let ?vs = "leaf_get_value_vector n"
  from assms(3) have pos: "1 \<le> ?c" by simp
  from leaf_split_effect [OF assms(1,2) pos]
  obtain l r sep where e: "leaf_split n buffer = Inr (l, r, sep)"
    "count l = ?nc" "count r = ?c div 2" "level l = level n" "level r = level n"
    "leaf_get_key_vector l = take ?nc ?ks" "leaf_get_key_vector r = drop ?nc ?ks"
    "leaf_get_value_vector l = take ?nc ?vs" "leaf_get_value_vector r = drop ?nc ?vs"
    "sep = leaf_node.keys l ! (count l - 1)" "sep = last (leaf_get_key_vector l)"
    by (elim exE conjE) (rule that)
  have lens: "length ?ks = ?c" "length ?vs = ?c"
    using assms(1) by (auto simp: leaf_wf_def leaf_get_key_vector_def leaf_get_value_vector_def)
  have ne: "take ?nc ?ks \<noteq> []" using lens assms(3) by auto
  have mem: "sep \<in> set (take ?nc ?ks)" using e(6,11) last_in_set [OF ne] by simp
  have srt: "sorted (take ?nc ?ks)"
    using sorted_wrt_take_drop_parts(1) [OF assms(4), of ?nc] by (rule strict_sorted_imp_sorted)
  have le: "\<forall>k\<in>set (take ?nc ?ks). k \<le> sep"
  proof
    fix k assume "k \<in> set (take ?nc ?ks)"
    then obtain j where j: "j < length (take ?nc ?ks)" "k = take ?nc ?ks ! j"
      by (auto simp: in_set_conv_nth)
    have "take ?nc ?ks ! j \<le> take ?nc ?ks ! (length (take ?nc ?ks) - 1)"
      using srt j(1) by (intro sorted_nth_mono) auto
    then show "k \<le> sep" using j(2) e(6,11) ne by (simp add: last_conv_nth)
  qed
  have gt: "\<forall>k\<in>set (drop ?nc ?ks). sep < k"
    using sorted_wrt_take_drop_parts(3) [OF assms(4), of ?nc] mem by blast
  have z: "take ?nc (zip ?ks ?vs) @ drop ?nc (zip ?ks ?vs) = zip ?ks ?vs"
    by (rule append_take_drop_id)
  have "set (take ?nc (zip ?ks ?vs)) \<union> set (drop ?nc (zip ?ks ?vs)) = set (zip ?ks ?vs)"
    unfolding set_append [symmetric] z ..
  then have zs: "set (zip (take ?nc ?ks) (take ?nc ?vs)) \<union> set (zip (drop ?nc ?ks) (drop ?nc ?vs)) = set (zip ?ks ?vs)"
    by (simp only: take_zip drop_zip)
  show ?thesis
    using e mem le gt zs by simp
qed

text \<open>
  C4 (as amended).  For every inner node with \<open>c \<ge> 2\<close> children and strictly increasing
  separator keys, \<open>inner_split\<close> leaves the original node with \<open>c - c div 2\<close> children,
  fills the buffer with an inner node of the same level holding the upper \<open>c div 2\<close>
  children, and returns the key at index \<open>(c - c div 2) - 1\<close>.  That key is moved up: it
  is not one of the separator keys of the left node after the split, it is greater than
  all of them and less than all separator keys of the right node.
\<close>

theorem inner_split_correct:
  fixes n buffer :: "('k :: linorder) inner_node"
  assumes "inner_wf kCapacity n" and "inner_wf kCapacity buffer" and "2 \<le> count n"
    and "sorted_wrt (<) (inner_get_key_vector n)"
  shows "\<exists>l r sep. inner_split n buffer = Inr (l, r, sep)
           \<and> count l = count n - count n div 2 \<and> count r = count n div 2
           \<and> level l = level n \<and> level r = level n
           \<and> sep = inner_node.keys l ! (count l - 1)
           \<and> inner_get_children_vector l @ inner_get_children_vector r = inner_get_children_vector n
           \<and> inner_get_key_vector l @ sep # inner_get_key_vector r = inner_get_key_vector n
           \<and> sep \<notin> set (inner_get_key_vector l)
           \<and> (\<forall>k\<in>set (inner_get_key_vector l). k < sep)
           \<and> (\<forall>k\<in>set (inner_get_key_vector r). sep < k)"
proof -
  let ?c = "count n"
  let ?nc = "?c - ?c div 2"
  let ?ks = "inner_get_key_vector n"
  let ?cs = "inner_get_children_vector n"
  from inner_split_effect [OF assms(1,2,3)]
  obtain l r sep where e: "inner_split n buffer = Inr (l, r, sep)"
    "count l = ?nc" "count r = ?c div 2" "level l = level n" "level r = level n"
    "inner_get_children_vector l = take ?nc ?cs" "inner_get_children_vector r = drop ?nc ?cs"
    "inner_get_key_vector l = take (?nc - 1) ?ks" "inner_get_key_vector r = drop ?nc ?ks"
    "sep = inner_node.keys l ! (count l - 1)" "sep = ?ks ! (?nc - 1)" "?nc - 1 < length ?ks"
    by (elim exE conjE) (rule that)
  have nc: "Suc (?nc - 1) = ?nc" using assms(3) by presburger
  have dec: "take (?nc - 1) ?ks @ sep # drop ?nc ?ks = ?ks"
    using id_take_nth_drop [OF e(12)] e(11) nc by simp
  then have s: "sorted_wrt (<) (take (?nc - 1) ?ks @ sep # drop ?nc ?ks)" using assms(4) by simp
  have lt: "\<forall>k\<in>set (take (?nc - 1) ?ks). k < sep" and gt: "\<forall>k\<in>set (drop ?nc ?ks). sep < k"
    using s unfolding sorted_wrt_append by auto
  from lt have nin: "sep \<notin> set (take (?nc - 1) ?ks)" by auto
  show ?thesis using e dec lt gt nin by simp
qed

text \<open>
  C5.  For every inner node with \<open>k \<ge> 1\<close> children whose \<open>k - 1\<close> separator keys are
  strictly increasing, \<open>inner_lower_bound\<close> returns \<open>(i, found)\<close> where \<open>i\<close> is the smallest
  index in \<open>[0, k - 1]\<close> with \<open>keys[i] \<ge> key\<close> (\<open>k - 1\<close>, the rightmost child, if every
  separator is less), and \<open>found\<close> holds iff \<open>i < k - 1\<close> and \<open>keys[i] = key\<close>; with
  \<open>count = 0\<close> it returns \<open>(0, False)\<close>.  So the child chosen satisfies
  \<open>sep[i - 1] < key \<le> sep[i]\<close>, with no bound at either end.
\<close>

theorem inner_lower_bound_correct:
  fixes n :: "('k :: linorder) inner_node"
  assumes "1 \<le> count n" and "count n - 1 \<le> length (inner_node.keys n)"
    and "sorted_wrt (<) (inner_get_key_vector n)"
  shows "\<exists>i found. inner_lower_bound n key = (i, found)
           \<and> i \<le> count n - 1
           \<and> (\<forall>j < i. inner_node.keys n ! j < key)
           \<and> (\<forall>j < count n - 1. i \<le> j \<longrightarrow> key \<le> inner_node.keys n ! j)
           \<and> (found \<longleftrightarrow> i < count n - 1 \<and> inner_node.keys n ! i = key)
           \<and> (0 < i \<longrightarrow> inner_node.keys n ! (i - 1) < key)
           \<and> (i < count n - 1 \<longrightarrow> key \<le> inner_node.keys n ! i)
           \<and> inner_lower_bound (n\<lparr>count := 0\<rparr>) key = (0, False)"
proof -
  let ?xs = "inner_get_key_vector n"
  let ?i = "lower_bound_branchless (<) ?xs key"
  have len: "length ?xs = count n - 1" using assms(2) by (simp add: inner_get_key_vector_def)
  have nz: "count n \<noteq> 0" using assms(1) by simp
  have r: "inner_lower_bound n key = (?i, ?i < count n - 1 \<and> inner_node.keys n ! ?i = key)"
    using nz by (simp add: inner_lower_bound_def inner_get_key_vector_def Let_def)
  have i_le: "?i \<le> count n - 1" using lb_le_length [OF assms(3), of key] len by simp
  have below: "\<forall>j < ?i. inner_node.keys n ! j < key"
  proof (intro allI impI)
    fix j assume j: "j < ?i"
    then have "?xs ! j \<in> set (take ?i ?xs)" using i_le len by (auto simp: in_set_conv_nth)
    then have "?xs ! j < key" using lb_take_less [OF assms(3)] by blast
    then show "inner_node.keys n ! j < key" using j i_le by (simp add: inner_get_key_vector_def)
  qed
  have above: "\<forall>j < count n - 1. ?i \<le> j \<longrightarrow> key \<le> inner_node.keys n ! j"
  proof (intro allI impI)
    fix j assume j: "j < count n - 1" "?i \<le> j"
    then have "drop ?i ?xs ! (j - ?i) = ?xs ! j" "j - ?i < length (drop ?i ?xs)"
      using len by simp_all
    then have "?xs ! j \<in> set (drop ?i ?xs)" by (metis nth_mem)
    then have "key \<le> ?xs ! j" using lb_drop_ge [OF assms(3)] by blast
    then show "key \<le> inner_node.keys n ! j" using j by (simp add: inner_get_key_vector_def)
  qed
  have z: "inner_lower_bound (n\<lparr>count := 0\<rparr>) key = (0, False)"
    by (simp add: inner_lower_bound_def)
  show ?thesis
    unfolding r using i_le below above z by auto
qed

lemma inner_keys_eq: "inner_keys n = inner_get_key_vector n"
  by (simp add: inner_keys_def inner_get_key_vector_def)

lemma leaf_insert_sorted:
  fixes n :: "('k :: linorder, 'v) leaf_node"
  assumes wf: "leaf_wf kCapacity n" and srt: "sorted_wrt (<) (leaf_get_key_vector n)"
    and pre: "leaf_has_space kCapacity n \<or> key \<in> set (leaf_get_key_vector n)"
  shows "\<exists>n'. leaf_insert_ndebug kCapacity n key val = Inr n' \<and> sorted_wrt (<) (leaf_get_key_vector n')
           \<and> (leaf_has_space kCapacity n \<longrightarrow> leaf_insert kCapacity n key val = Inr n')"
proof (cases "key \<in> set (leaf_get_key_vector n)")
  case True
  from leaf_insert_ndebug_present [OF wf srt True, of val]
  obtain n' where n': "leaf_insert_ndebug kCapacity n key val = Inr n'"
    "leaf_get_key_vector n' = leaf_get_key_vector n"
    by (elim exE conjE) (rule that)
  show ?thesis using n' srt by (simp add: leaf_insert_def)
next
  case False
  then have space: "leaf_has_space kCapacity n" using pre by simp
  from leaf_insert_new [OF wf space srt False, of val]
  obtain n' where n': "leaf_insert kCapacity n key val = Inr n'"
    "leaf_get_key_vector n' = take (lower_bound_branchless (<) (leaf_get_key_vector n) key) (leaf_get_key_vector n)
        @ key # drop (lower_bound_branchless (<) (leaf_get_key_vector n) key) (leaf_get_key_vector n)"
    by (elim exE conjE) (rule that)
  have "leaf_insert_ndebug kCapacity n key val = Inr n'"
    using n'(1) space by (simp add: leaf_insert_def)
  then show ?thesis using n' sorted_wrt_insert_at_lb [OF srt False] by simp
qed

lemma leaf_erase_sorted:
  fixes n :: "('k :: linorder, 'v) leaf_node"
  assumes wf: "leaf_wf kCapacity n" and srt: "sorted_wrt (<) (leaf_get_key_vector n)"
  shows "\<exists>n' b. leaf_erase n key = Inr (n', b) \<and> sorted_wrt (<) (leaf_get_key_vector n')"
proof (cases "key \<in> set (leaf_get_key_vector n)")
  case True
  from leaf_erase_present [OF wf srt True]
  show ?thesis using sorted_wrt_remove_nth [OF srt] by auto
next
  case False
  have "count n \<le> length (leaf_node.keys n)" using wf by (simp add: leaf_wf_def)
  from leaf_erase_absent [OF this srt False]
  show ?thesis using srt by (intro exI [of _ n] exI [of _ False]) simp
qed

lemma insert_split_sorted:
  fixes n :: "('k :: linorder) inner_node"
  assumes wf: "inner_wf kCapacity n" and space: "inner_has_space kCapacity n"
    and srt: "sorted_wrt (<) (inner_keys n)" and new: "key \<notin> set (inner_keys n)"
    and cap: "2 \<le> kCapacity"
  shows "\<exists>n'. insert_split kCapacity n key split_page = Inr n' \<and> sorted_wrt (<) (inner_keys n')"
proof (cases "count n = 0")
  case True
  then have "insert_split kCapacity n key split_page
      = Inr (n\<lparr>count := 1, inner_node.keys := (inner_node.keys n)[0 := key],
                children := (children n)[1 := split_page]\<rparr>)"
    using space cap by (simp add: insert_split_def inner_lower_bound_def)
  then show ?thesis by (simp add: inner_keys_def)
next
  case False
  then have pos: "1 \<le> count n" by simp
  from insert_split_effect [OF wf space pos srt [unfolded inner_keys_eq] new [unfolded inner_keys_eq], of split_page]
  show ?thesis
    unfolding inner_keys_eq
    using sorted_wrt_insert_at_lb [OF srt [unfolded inner_keys_eq] new [unfolded inner_keys_eq]] by auto
qed

lemma leaf_split_by_nodes:
  "leaf_split n buffer =
     (case leaf_split_nodes n buffer of
        (l, r) \<Rightarrow> if count l = 0 then Inl OutOfBounds else Inr (l, r, leaf_node.keys n ! (count l - 1)))"
proof -
  have "count n - count n div 2 = 0 \<longleftrightarrow> count n = 0" by presburger
  then show ?thesis by (simp add: leaf_split_def leaf_split_nodes_def Let_def del: diff_is_0_eq)
qed

lemma inner_split_by_nodes:
  "inner_split n buffer =
     (case inner_split_nodes n buffer of
        (l, r) \<Rightarrow> if count l = 0 then Inl OutOfBounds else Inr (l, r, inner_node.keys n ! (count l - 1)))"
proof -
  have "count n - count n div 2 = 0 \<longleftrightarrow> count n = 0" by presburger
  then show ?thesis by (simp add: inner_split_def inner_split_nodes_def Let_def del: diff_is_0_eq)
qed

lemma leaf_split_sorted:
  fixes n buffer :: "('k :: linorder, 'v) leaf_node"
  assumes wf: "leaf_wf kCapacity n" and wfb: "leaf_wf kCapacity buffer"
    and srt: "sorted_wrt (<) (leaf_get_key_vector n)"
  shows "\<exists>l r. leaf_split_nodes n buffer = (l, r)
           \<and> sorted_wrt (<) (leaf_get_key_vector l) \<and> sorted_wrt (<) (leaf_get_key_vector r)
           \<and> (1 \<le> count n \<longrightarrow> (\<exists>sep. leaf_split n buffer = Inr (l, r, sep)))"
proof (cases "count n = 0")
  case True
  then show ?thesis by (simp add: leaf_split_nodes_def leaf_get_key_vector_def)
next
  case False
  then have pos: "1 \<le> count n" by simp
  from leaf_split_effect [OF wf wfb pos]
  obtain l r sep where e: "leaf_split n buffer = Inr (l, r, sep)"
    "leaf_get_key_vector l = take (count n - count n div 2) (leaf_get_key_vector n)"
    "leaf_get_key_vector r = drop (count n - count n div 2) (leaf_get_key_vector n)"
    by (elim exE conjE) (rule that)
  have nodes: "leaf_split_nodes n buffer = (l, r)"
    using e(1) unfolding leaf_split_by_nodes
    by (cases "leaf_split_nodes n buffer") (simp split: if_splits)
  show ?thesis
    using nodes e sorted_wrt_take_drop_parts(1,2) [OF srt] by simp
qed

lemma inner_split_sorted:
  fixes n buffer :: "('k :: linorder) inner_node"
  assumes wf: "inner_wf kCapacity n" and wfb: "inner_wf kCapacity buffer"
    and srt: "sorted_wrt (<) (inner_keys n)"
  shows "\<exists>l r. inner_split_nodes n buffer = (l, r)
           \<and> sorted_wrt (<) (inner_keys l) \<and> sorted_wrt (<) (inner_keys r)
           \<and> (1 \<le> count n \<longrightarrow> (\<exists>sep. inner_split n buffer = Inr (l, r, sep)))"
proof (cases "2 \<le> count n")
  case False
  then have "count n = 0 \<or> count n = 1" by auto
  then show ?thesis
    by (auto simp: inner_split_nodes_def inner_split_def inner_keys_def Let_def)
next
  case True
  from inner_split_effect [OF wf wfb True]
  obtain l r sep where e: "inner_split n buffer = Inr (l, r, sep)"
    "inner_get_key_vector l = take (count n - count n div 2 - 1) (inner_get_key_vector n)"
    "inner_get_key_vector r = drop (count n - count n div 2) (inner_get_key_vector n)"
    by (elim exE conjE) (rule that)
  have nodes: "inner_split_nodes n buffer = (l, r)"
    using e(1) unfolding inner_split_by_nodes
    by (cases "inner_split_nodes n buffer") (simp split: if_splits)
  show ?thesis
    unfolding inner_keys_eq
    using nodes e sorted_wrt_take_drop_parts(1,2) [OF srt [unfolded inner_keys_eq]] by simp
qed

text \<open>
  C6.  Strictly increasing key order is preserved by every node operation.  From a
  well-formed node whose keys are strictly increasing:
  \<^item> \<open>LeafNode::insert\<close>, given space or an already-present key, yields a node with
    strictly increasing keys.  Given space this is the result of the function with its
    assertion compiled in; for an already-present key in a full leaf it is the result of
    the function without the assertion (with it, the call stops at \<^verbatim>\<open>assert(has_space())\<close>
    and yields no node).
  \<^item> \<open>LeafNode::erase\<close> yields a node with strictly increasing keys.
  \<^item> \<open>InnerNode::insert_split\<close>, given space and an absent separator, yields a node with
    strictly increasing separator keys (for a capacity of at least 2: a node of capacity 1
    has no slot for the second child).
  \<^item> Both splits leave two nodes with strictly increasing keys, whatever the count of the
    node that is split; when it is not empty, they are the nodes \<open>split\<close> returns.
\<close>

theorem sorted_keys_preserved:
  fixes n lbuf :: "('k :: linorder, 'v) leaf_node" and m ibuf :: "'k inner_node"
  shows "(leaf_wf lcap n \<and> sorted_wrt (<) (leaf_get_key_vector n)
            \<and> (leaf_has_space lcap n \<or> key \<in> set (leaf_get_key_vector n)) \<longrightarrow>
            (\<exists>n'. leaf_insert_ndebug lcap n key val = Inr n' \<and> sorted_wrt (<) (leaf_get_key_vector n')
               \<and> (leaf_has_space lcap n \<longrightarrow> leaf_insert lcap n key val = Inr n')))
       \<and> (leaf_wf lcap n \<and> sorted_wrt (<) (leaf_get_key_vector n) \<longrightarrow>
            (\<exists>n' b. leaf_erase n key = Inr (n', b) \<and> sorted_wrt (<) (leaf_get_key_vector n')))
       \<and> (inner_wf icap m \<and> sorted_wrt (<) (inner_keys m) \<and> inner_has_space icap m
            \<and> key \<notin> set (inner_keys m) \<and> 2 \<le> icap \<longrightarrow>
            (\<exists>m'. insert_split icap m key split_page = Inr m' \<and> sorted_wrt (<) (inner_keys m')))
       \<and> (leaf_wf lcap n \<and> leaf_wf lcap lbuf \<and> sorted_wrt (<) (leaf_get_key_vector n) \<longrightarrow>
            (\<exists>l r. leaf_split_nodes n lbuf = (l, r)
               \<and> sorted_wrt (<) (leaf_get_key_vector l) \<and> sorted_wrt (<) (leaf_get_key_vector r)
               \<and> (1 \<le> count n \<longrightarrow> (\<exists>sep. leaf_split n lbuf = Inr (l, r, sep)))))
       \<and> (inner_wf icap m \<and> inner_wf icap ibuf \<and> sorted_wrt (<) (inner_keys m) \<longrightarrow>
            (\<exists>l r. inner_split_nodes m ibuf = (l, r)
               \<and> sorted_wrt (<) (inner_keys l) \<and> sorted_wrt (<) (inner_keys r)
               \<and> (1 \<le> count m \<longrightarrow> (\<exists>sep. inner_split m ibuf = Inr (l, r, sep)))))"
  using leaf_insert_sorted [of lcap n key val] leaf_erase_sorted [of lcap n key]
    insert_split_sorted [of icap m key split_page] leaf_split_sorted [of lcap n lbuf]
    inner_split_sorted [of icap m ibuf]
  by blast

text \<open>Concrete nodes with four slots, for the theorems above.\<close>

definition leaf_ex :: "(nat, nat) leaf_node" where
  "leaf_ex = \<lparr>level = 0, count = 3, leaf_node.keys = [1, 5, 7, 0], values = [10, 50, 70, 0]\<rparr>"

definition leaf_buf_ex :: "(nat, nat) leaf_node" where
  "leaf_buf_ex = \<lparr>level = 0, count = 0, leaf_node.keys = [0, 0, 0, 0], values = [0, 0, 0, 0]\<rparr>"

definition leaf_full_ex :: "(nat, nat) leaf_node" where
  "leaf_full_ex = \<lparr>level = 0, count = 4, leaf_node.keys = [1, 5, 7, 9], values = [10, 50, 70, 90]\<rparr>"

definition inner_ex :: "nat inner_node" where
  "inner_ex = \<lparr>level = 1, count = 4, inner_node.keys = [10, 20, 30, 0], children = [1, 2, 3, 4]\<rparr>"

definition inner_buf_ex :: "nat inner_node" where
  "inner_buf_ex = \<lparr>level = 0, count = 0, inner_node.keys = [0, 0, 0, 0], children = [0, 0, 0, 0]\<rparr>"

lemmas ex_defs = leaf_ex_def leaf_buf_ex_def leaf_full_ex_def inner_ex_def inner_buf_ex_def
  leaf_wf_def inner_wf_def leaf_get_key_vector_def leaf_get_value_vector_def
  inner_get_key_vector_def inner_get_children_vector_def

lemma leaf_split_ex:
  "leaf_split leaf_ex leaf_buf_ex =
     Inr (\<lparr>level = 0, count = 2, leaf_node.keys = [1, 5, 7, 0], values = [10, 50, 70, 0]\<rparr>,
          \<lparr>level = 0, count = 1, leaf_node.keys = [7, 0, 0, 0], values = [70, 0, 0, 0]\<rparr>, 5)"
  by (simp add: leaf_split_def ex_defs copy_upper.simps Let_def)

lemma inner_split_ex:
  "inner_split inner_ex inner_buf_ex =
     Inr (\<lparr>level = 1, count = 2, inner_node.keys = [10, 20, 30, 0], children = [1, 2, 3, 4]\<rparr>,
          \<lparr>level = 1, count = 2, inner_node.keys = [30, 0, 0, 0], children = [3, 4, 0, 0]\<rparr>, 20)"
  by (simp add: inner_split_def ex_defs copy_upper.simps Let_def)

theorem leaf_split_correct_witness:
  "leaf_wf 4 leaf_ex \<and> leaf_wf 4 leaf_buf_ex \<and> 2 \<le> count leaf_ex
   \<and> sorted_wrt (<) (leaf_get_key_vector leaf_ex)
   \<and> leaf_split leaf_ex leaf_buf_ex =
     Inr (\<lparr>level = 0, count = 2, leaf_node.keys = [1, 5, 7, 0], values = [10, 50, 70, 0]\<rparr>,
          \<lparr>level = 0, count = 1, leaf_node.keys = [7, 0, 0, 0], values = [70, 0, 0, 0]\<rparr>, 5)"
proof -
  have h: "leaf_wf 4 leaf_ex" "leaf_wf 4 leaf_buf_ex" "2 \<le> count leaf_ex"
    "sorted_wrt (<) (leaf_get_key_vector leaf_ex)"
    by (simp_all add: ex_defs)
  show ?thesis
    using h leaf_split_ex leaf_split_correct [OF h] by simp
qed

theorem inner_split_correct_witness:
  "inner_wf 4 inner_ex \<and> inner_wf 4 inner_buf_ex \<and> 2 \<le> count inner_ex
   \<and> sorted_wrt (<) (inner_get_key_vector inner_ex)
   \<and> inner_split inner_ex inner_buf_ex =
     Inr (\<lparr>level = 1, count = 2, inner_node.keys = [10, 20, 30, 0], children = [1, 2, 3, 4]\<rparr>,
          \<lparr>level = 1, count = 2, inner_node.keys = [30, 0, 0, 0], children = [3, 4, 0, 0]\<rparr>, 20)"
proof -
  have h: "inner_wf 4 inner_ex" "inner_wf 4 inner_buf_ex" "2 \<le> count inner_ex"
    "sorted_wrt (<) (inner_get_key_vector inner_ex)"
    by (simp_all add: ex_defs)
  show ?thesis
    using h inner_split_ex inner_split_correct [OF h] by simp
qed

text \<open>
  The separator returned by \<open>inner_split\<close> is not a separator key of the left node: with
  four children and the keys 10, 20, 30 the left node keeps the key 10 and 20 is returned.
\<close>

theorem inner_split_separator_counterexample:
  "inner_split inner_ex inner_buf_ex =
     Inr (\<lparr>level = 1, count = 2, inner_node.keys = [10, 20, 30, 0], children = [1, 2, 3, 4]\<rparr>,
          \<lparr>level = 1, count = 2, inner_node.keys = [30, 0, 0, 0], children = [3, 4, 0, 0]\<rparr>, 20)
   \<and> inner_get_key_vector \<lparr>level = 1, count = 2, inner_node.keys = [10, 20, 30, 0], children = [1, 2, 3, 4]\<rparr> = [10]
   \<and> (20 :: nat) \<notin> set (inner_get_key_vector \<lparr>level = 1, count = 2, inner_node.keys = [10, 20, 30, 0 :: nat], children = [1, 2, 3, 4]\<rparr>)"
  using inner_split_ex by (simp add: inner_get_key_vector_def)

theorem inner_lower_bound_correct_witness:
  "1 \<le> count inner_ex \<and> count inner_ex - 1 \<le> length (inner_node.keys inner_ex)
   \<and> sorted_wrt (<) (inner_get_key_vector inner_ex)
   \<and> inner_lower_bound inner_ex 20 = (1, True) \<and> inner_lower_bound inner_ex 31 = (3, False)"
proof -
  have h: "1 \<le> count inner_ex" "count inner_ex - 1 \<le> length (inner_node.keys inner_ex)"
    "sorted_wrt (<) (inner_get_key_vector inner_ex)"
    by (simp_all add: ex_defs)
  have e: "inner_lower_bound inner_ex 20 = (1, True)" "inner_lower_bound inner_ex 31 = (3, False)"
    by (simp_all add: inner_lower_bound_def ex_defs lower_bound_branchless_def lb_loop.simps Let_def)
  show ?thesis
    using h e inner_lower_bound_correct [OF h, of 20] by simp
qed

theorem sorted_keys_preserved_witness:
  "leaf_wf 4 leaf_ex \<and> sorted_wrt (<) (leaf_get_key_vector leaf_ex) \<and> leaf_has_space 4 leaf_ex
   \<and> inner_wf 4 (inner_ex\<lparr>count := 3\<rparr>) \<and> sorted_wrt (<) (inner_keys (inner_ex\<lparr>count := 3\<rparr>))
   \<and> inner_has_space 4 (inner_ex\<lparr>count := 3\<rparr>) \<and> 15 \<notin> set (inner_keys (inner_ex\<lparr>count := 3\<rparr>))
   \<and> leaf_wf 4 leaf_buf_ex \<and> 1 \<le> count leaf_ex
   \<and> inner_wf 4 inner_buf_ex \<and> 1 \<le> count (inner_ex\<lparr>count := 3\<rparr>)
   \<and> (\<exists>n'. leaf_insert 4 leaf_ex 15 30 = Inr n' \<and> sorted_wrt (<) (leaf_get_key_vector n'))
   \<and> (\<exists>n' b. leaf_erase leaf_ex 15 = Inr (n', b) \<and> sorted_wrt (<) (leaf_get_key_vector n'))
   \<and> (\<exists>m'. insert_split 4 (inner_ex\<lparr>count := 3\<rparr>) 15 9 = Inr m' \<and> sorted_wrt (<) (inner_keys m'))
   \<and> (\<exists>l r sep. leaf_split leaf_ex leaf_buf_ex = Inr (l, r, sep)
               \<and> sorted_wrt (<) (leaf_get_key_vector l) \<and> sorted_wrt (<) (leaf_get_key_vector r))
   \<and> (\<exists>l r sep. inner_split (inner_ex\<lparr>count := 3\<rparr>) inner_buf_ex = Inr (l, r, sep)
               \<and> sorted_wrt (<) (inner_keys l) \<and> sorted_wrt (<) (inner_keys r))
   \<and> leaf_wf 4 leaf_full_ex \<and> sorted_wrt (<) (leaf_get_key_vector leaf_full_ex)
   \<and> 5 \<in> set (leaf_get_key_vector leaf_full_ex) \<and> \<not> leaf_has_space 4 leaf_full_ex
   \<and> (\<exists>n'. leaf_insert_ndebug 4 leaf_full_ex 5 55 = Inr n' \<and> sorted_wrt (<) (leaf_get_key_vector n'))"
proof -
  have h: "leaf_wf 4 leaf_ex" "sorted_wrt (<) (leaf_get_key_vector leaf_ex)" "leaf_has_space 4 leaf_ex"
   "inner_wf 4 (inner_ex\<lparr>count := 3\<rparr>)" "sorted_wrt (<) (inner_keys (inner_ex\<lparr>count := 3\<rparr>))"
   "inner_has_space 4 (inner_ex\<lparr>count := 3\<rparr>)" "15 \<notin> set (inner_keys (inner_ex\<lparr>count := 3\<rparr>))"
   "leaf_wf 4 leaf_buf_ex" "1 \<le> count leaf_ex"
   "inner_wf 4 inner_buf_ex" "1 \<le> count (inner_ex\<lparr>count := 3\<rparr>)" "2 \<le> (4 :: nat)"
    by (simp_all add: ex_defs inner_keys_def leaf_has_space_def inner_has_space_def)
  have g: "leaf_wf 4 leaf_full_ex" "sorted_wrt (<) (leaf_get_key_vector leaf_full_ex)"
    "5 \<in> set (leaf_get_key_vector leaf_full_ex)" "\<not> leaf_has_space 4 leaf_full_ex"
    by (simp_all add: ex_defs leaf_has_space_def)
  have 1: "(\<exists>n'. leaf_insert 4 leaf_ex 15 30 = Inr n' \<and> sorted_wrt (<) (leaf_get_key_vector n'))
   \<and> (\<exists>n' b. leaf_erase leaf_ex 15 = Inr (n', b) \<and> sorted_wrt (<) (leaf_get_key_vector n'))
   \<and> (\<exists>m'. insert_split 4 (inner_ex\<lparr>count := 3\<rparr>) 15 9 = Inr m' \<and> sorted_wrt (<) (inner_keys m'))
   \<and> (\<exists>l r sep. leaf_split leaf_ex leaf_buf_ex = Inr (l, r, sep)
               \<and> sorted_wrt (<) (leaf_get_key_vector l) \<and> sorted_wrt (<) (leaf_get_key_vector r))
   \<and> (\<exists>l r sep. inner_split (inner_ex\<lparr>count := 3\<rparr>) inner_buf_ex = Inr (l, r, sep)
               \<and> sorted_wrt (<) (inner_keys l) \<and> sorted_wrt (<) (inner_keys r))"
    using h sorted_keys_preserved [where lcap = 4 and n = leaf_ex and key = 15 and val = 30
        and icap = 4 and m = "inner_ex\<lparr>count := 3\<rparr>" and split_page = 9
        and lbuf = leaf_buf_ex and ibuf = inner_buf_ex]
    by blast
  have 2: "\<exists>n'. leaf_insert_ndebug 4 leaf_full_ex 5 55 = Inr n' \<and> sorted_wrt (<) (leaf_get_key_vector n')"
    using g sorted_keys_preserved [where lcap = 4 and n = leaf_full_ex and key = 5 and val = 55
        and icap = 4 and m = "inner_ex\<lparr>count := 3\<rparr>" and split_page = 9
        and lbuf = leaf_buf_ex and ibuf = inner_buf_ex]
    by blast
  show ?thesis using h g 1 2 by blast
qed

section \<open>Buffer manager (buffer_manager.h, buffer_manager.cc)\<close>

text \<open>
  The buffer manager is modelled for one thread of control: an operation runs to its end
  before the next one starts.  Page ids, sizes and addresses are naturals.
  \<^item> A \<^verbatim>\<open>std::shared_mutex\<close> is \<open>Unlocked\<close>, held \<open>Shared\<close> by a number of holders, or held
    \<open>Exclusive\<close>.  \<open>lock\<close> and \<open>lock_shared\<close> return \<open>None\<close> where the call would wait for
    another holder; \<open>try_lock\<close> returns \<open>None\<close> where it fails.  The source releases
    both modes with \<^verbatim>\<open>unlock()\<close>.  The latches of the page table and of the two lists,
    and the loading latch, are taken and released inside one operation and are left out.
  \<^item> \<^verbatim>\<open>char* data\<close> is an address, \<open>0\<close> for \<^verbatim>\<open>nullptr\<close>; \<open>heap\<close> maps the addresses of
    the live buffers to their contents.  Which address \<^verbatim>\<open>malloc\<close> returns is the
    allocator's choice, so it is an argument of the model: \<open>fix_page bm page_id exclusive a\<close>
    is the call in which \<^verbatim>\<open>malloc\<close>, if it is reached, answers \<open>a\<close>.  Every address that is
    not the address of a live buffer is a possible answer, also one that was freed
    before; the null pointer, and an \<open>a\<close> that is the address of a live buffer, stand for
    an allocation that fails.  \<open>free\<close> removes a buffer and leaves every pointer to it
    as it is.
  \<^item> \<open>segments\<close> is the content of the segment files, one page per page id (a page
    that was never written reads as the file has it).
  \<^item> The lists hold frame pointers; a frame is named by its page id, the key of its
    entry in the page table, which never moves.
  \<^item> \<open>fix_page\<close> ends in one of: the frame is returned (\<open>Fixed\<close>), \<^verbatim>\<open>buffer_full_error\<close>
    is thrown, a \<^verbatim>\<open>std::runtime_error\<close> is thrown, an assertion fails, or the call waits
    for a latch (\<open>blocks\<close>).
\<close>

datatype PageState = IN_FIFO | IN_LRU | NOT_LOADED | LOADING

datatype Latch = Unlocked | Shared nat | Exclusive

definition lock :: "Latch \<Rightarrow> Latch option" where
  "lock l = (if l = Unlocked then Some Exclusive else None)"

definition lock_shared :: "Latch \<Rightarrow> Latch option" where
  "lock_shared l = (case l of Unlocked \<Rightarrow> Some (Shared 1) | Shared k \<Rightarrow> Some (Shared (k + 1)) | Exclusive \<Rightarrow> None)"

definition try_lock :: "Latch \<Rightarrow> Latch option" where
  "try_lock l = (if l = Unlocked then Some Exclusive else None)"

definition unlock :: "Latch \<Rightarrow> Latch" where
  "unlock l = (case l of Shared k \<Rightarrow> (if k \<le> 1 then Unlocked else Shared (k - 1)) | _ \<Rightarrow> Unlocked)"

record BufferFrame =
  pid :: nat
  pageState :: PageState
  pageLatch :: Latch
  isDirty :: bool
  data :: nat

definition new_BufferFrame :: "nat \<Rightarrow> BufferFrame" where
  "new_BufferFrame p = \<lparr>pid = p, pageState = NOT_LOADED, pageLatch = Unlocked, isDirty = False, data = 0\<rparr>"

record 'p BufferManager =
  pageSize :: nat
  pageCount :: nat
  pageTable :: "nat \<Rightarrow> BufferFrame option"
  fifoList :: "nat list"
  lruList :: "nat list"
  segments :: "nat \<Rightarrow> 'p"
  heap :: "nat \<Rightarrow> 'p option"

definition new_BufferManager :: "nat \<Rightarrow> nat \<Rightarrow> (nat \<Rightarrow> 'p) \<Rightarrow> 'p BufferManager" where
  "new_BufferManager page_size page_count disk =
     \<lparr>pageSize = page_size, pageCount = page_count, pageTable = (\<lambda>_. None),
      fifoList = [], lruList = [], segments = disk, heap = (\<lambda>_. None)\<rparr>"

definition update_frame :: "'p BufferManager \<Rightarrow> nat \<Rightarrow> (BufferFrame \<Rightarrow> BufferFrame) \<Rightarrow> 'p BufferManager" where
  "update_frame bm p g = bm\<lparr>pageTable := (pageTable bm)(p := map_option g (pageTable bm p))\<rparr>"

definition malloc :: "'p BufferManager \<Rightarrow> nat \<Rightarrow> 'p \<Rightarrow> nat \<times> 'p BufferManager" where
  "malloc bm a content =
     (if a \<noteq> 0 \<and> heap bm a = None then (a, bm\<lparr>heap := (heap bm)(a \<mapsto> content)\<rparr>) else (0, bm))"

definition free :: "'p BufferManager \<Rightarrow> nat \<Rightarrow> 'p BufferManager" where
  "free bm a = bm\<lparr>heap := (heap bm)(a := None)\<rparr>"

definition getBufferFrame :: "'p BufferManager \<Rightarrow> nat \<Rightarrow> 'p BufferManager" where
  "getBufferFrame bm pageId =
     (case pageTable bm pageId of
        Some frame \<Rightarrow> bm
      | None \<Rightarrow> bm\<lparr>pageTable := (pageTable bm)(pageId \<mapsto> new_BufferFrame pageId)\<rparr>)"

fun lockEvictableFrame_from :: "'p BufferManager \<Rightarrow> nat list \<Rightarrow> nat \<Rightarrow> nat option \<times> 'p BufferManager" where
  "lockEvictableFrame_from bm [] i = (None, bm)"
| "lockEvictableFrame_from bm (p # ps) i =
     (case pageTable bm p of
        None \<Rightarrow> lockEvictableFrame_from bm ps (i + 1)
      | Some f \<Rightarrow>
          (case try_lock (pageLatch f) of
             Some l \<Rightarrow> (Some i, update_frame bm p (\<lambda>f. f\<lparr>pageLatch := l\<rparr>))
           | None \<Rightarrow> lockEvictableFrame_from bm ps (i + 1)))"

definition lockEvictableFrame :: "'p BufferManager \<Rightarrow> nat list \<Rightarrow> nat option \<times> 'p BufferManager" where
  "lockEvictableFrame bm frameList = lockEvictableFrame_from bm frameList 0"

definition flushPage :: "'p BufferManager \<Rightarrow> nat \<Rightarrow> 'p BufferManager" where
  "flushPage bm p =
     (case pageTable bm p of
        None \<Rightarrow> bm
      | Some frame \<Rightarrow>
          (case heap bm (data frame) of
             None \<Rightarrow> bm
           | Some content \<Rightarrow>
               update_frame (bm\<lparr>segments := (segments bm)(pid frame := content)\<rparr>) p (\<lambda>f. f\<lparr>isDirty := False\<rparr>)))"

definition remove_nth :: "nat \<Rightarrow> 'a list \<Rightarrow> 'a list" where
  "remove_nth i xs = take i xs @ drop (i + 1) xs"

definition evict :: "'p BufferManager \<Rightarrow> nat \<Rightarrow> PageState \<Rightarrow> 'p BufferManager option" where
  "evict bm p expected =
     (case pageTable bm p of
        None \<Rightarrow> None
      | Some bf \<Rightarrow>
          if pageState bf \<noteq> expected then None
          else
            (let bm1 = (if isDirty bf then flushPage bm p else bm);
                 bm2 = update_frame bm1 p (\<lambda>f. f\<lparr>pageState := NOT_LOADED\<rparr>)
             in if data bf = 0 then None
                else Some (update_frame (free bm2 (data bf)) p (\<lambda>f. f\<lparr>pageLatch := unlock (pageLatch f)\<rparr>))))"

definition insertBufferFrame :: "'p BufferManager \<Rightarrow> nat \<Rightarrow> (bool \<times> 'p BufferManager) option" where
  "insertBufferFrame bm frame =
     (if length (fifoList bm) + length (lruList bm) < pageCount bm
      then Some (True, bm\<lparr>fifoList := fifoList bm @ [frame]\<rparr>)
      else
        (case lockEvictableFrame bm (fifoList bm) of
           (Some i, bm1) \<Rightarrow>
             (let bf = fifoList bm1 ! i;
                  bm2 = bm1\<lparr>fifoList := remove_nth i (fifoList bm1) @ [frame]\<rparr>
              in map_option (Pair True) (evict bm2 bf IN_FIFO))
         | (None, bm1) \<Rightarrow>
             (case lockEvictableFrame bm1 (lruList bm1) of
                (Some i, bm2) \<Rightarrow>
                  (let bf = lruList bm2 ! i;
                       bm3 = bm2\<lparr>lruList := remove_nth i (lruList bm2), fifoList := fifoList bm2 @ [frame]\<rparr>
                   in map_option (Pair True) (evict bm3 bf IN_LRU))
              | (None, bm2) \<Rightarrow> Some (False, bm2))))"

datatype 'a fix_result = Fixed 'a | buffer_full_error 'a | runtime_error | assertion_failed | blocks

definition loadPage :: "'p BufferManager \<Rightarrow> nat \<Rightarrow> nat \<Rightarrow> (bool \<times> 'p BufferManager) fix_result" where
  "loadPage bm p a =
     (case pageTable bm p of
        None \<Rightarrow> runtime_error
      | Some frame \<Rightarrow>
          if pageState frame = LOADING then runtime_error
          else if pageState frame = IN_FIFO \<or> pageState frame = IN_LRU then Fixed (True, bm)
          else
            (let bm1 = update_frame bm p (\<lambda>f. f\<lparr>pageState := LOADING\<rparr>) in
             case insertBufferFrame bm1 p of
               None \<Rightarrow> assertion_failed
             | Some (False, bm2) \<Rightarrow> Fixed (False, update_frame bm2 p (\<lambda>f. f\<lparr>pageState := NOT_LOADED\<rparr>))
             | Some (True, bm2) \<Rightarrow>
                 (let (d, bm3) = malloc bm2 a (segments bm2 p)
                  in if d = 0 then assertion_failed
                     else Fixed (True, update_frame bm3 p (\<lambda>f. f\<lparr>data := d, pageState := IN_FIFO\<rparr>)))))"

definition updateLru :: "'p BufferManager \<Rightarrow> nat \<Rightarrow> 'p BufferManager option" where
  "updateLru bm frame =
     (if frame \<in> set (lruList bm) then Some (bm\<lparr>lruList := remove1 frame (lruList bm) @ [frame]\<rparr>)
      else None)"

definition fix_page :: "'p BufferManager \<Rightarrow> nat \<Rightarrow> bool \<Rightarrow> nat \<Rightarrow> 'p BufferManager fix_result" where
  "fix_page bm0 page_id exclusive a =
     (let bm = getBufferFrame bm0 page_id in
      case pageTable bm page_id of
        None \<Rightarrow> runtime_error
      | Some frame \<Rightarrow>
          (case (if exclusive then lock (pageLatch frame) else lock_shared (pageLatch frame)) of
             None \<Rightarrow> blocks
           | Some l \<Rightarrow>
               (let bm = update_frame bm page_id (\<lambda>f. f\<lparr>pageLatch := l\<rparr>) in
                case pageState frame of
                  IN_FIFO \<Rightarrow>
                    if page_id \<in> set (fifoList bm)
                    then Fixed (update_frame (bm\<lparr>fifoList := remove1 page_id (fifoList bm),
                                                lruList := lruList bm @ [page_id]\<rparr>)
                                 page_id (\<lambda>f. f\<lparr>pageState := IN_LRU\<rparr>))
                    else assertion_failed
                | IN_LRU \<Rightarrow>
                    (case updateLru bm page_id of None \<Rightarrow> assertion_failed | Some bm1 \<Rightarrow> Fixed bm1)
                | NOT_LOADED \<Rightarrow>
                    (case loadPage bm page_id a of
                       Fixed (False, bm1) \<Rightarrow>
                         buffer_full_error (update_frame bm1 page_id (\<lambda>f. f\<lparr>pageLatch := unlock (pageLatch f)\<rparr>))
                     | Fixed (True, bm1) \<Rightarrow> Fixed bm1
                     | buffer_full_error _ \<Rightarrow> runtime_error
                     | runtime_error \<Rightarrow> runtime_error
                     | assertion_failed \<Rightarrow> assertion_failed
                     | blocks \<Rightarrow> blocks)
                | LOADING \<Rightarrow>
                    buffer_full_error (update_frame bm page_id (\<lambda>f. f\<lparr>pageLatch := unlock (pageLatch f)\<rparr>)))))"

definition unfix_page :: "'p BufferManager \<Rightarrow> nat \<Rightarrow> bool \<Rightarrow> 'p BufferManager" where
  "unfix_page bm page is_dirty =
     update_frame bm page (\<lambda>f. f\<lparr>isDirty := isDirty f \<or> is_dirty, pageLatch := unlock (pageLatch f)\<rparr>)"

definition get_fifo_list :: "'p BufferManager \<Rightarrow> nat list" where
  "get_fifo_list bm = fifoList bm"

definition get_lru_list :: "'p BufferManager \<Rightarrow> nat list" where
  "get_lru_list bm = lruList bm"

datatype bm_op = Fix nat bool nat | Unfix nat bool

definition state_after :: "'a fix_result \<Rightarrow> 'a option" where
  "state_after r = (case r of Fixed s \<Rightarrow> Some s | buffer_full_error s \<Rightarrow> Some s | _ \<Rightarrow> None)"

definition step :: "'p BufferManager \<Rightarrow> bm_op \<Rightarrow> 'p BufferManager option" where
  "step bm op = (case op of Fix p e a \<Rightarrow> state_after (fix_page bm p e a) | Unfix p d \<Rightarrow> Some (unfix_page bm p d))"

fun steps :: "'p BufferManager \<Rightarrow> bm_op list \<Rightarrow> 'p BufferManager option" where
  "steps bm [] = Some bm"
| "steps bm (op # ops) = (case step bm op of None \<Rightarrow> None | Some bm' \<Rightarrow> steps bm' ops)"

definition reachable :: "'p BufferManager \<Rightarrow> bool" where
  "reachable bm \<longleftrightarrow> (\<exists>page_size page_count disk ops. steps (new_BufferManager page_size page_count disk) ops = Some bm)"

definition zero_disk :: "nat \<Rightarrow> nat" where
  "zero_disk p = 0"

subsection \<open>Invariant of the buffer manager\<close>

text \<open>
  A frame is evictable when \<open>try_lock\<close> on its page latch succeeds.  The invariant holds
  of every state between two operations.
\<close>

definition evictable :: "'p BufferManager \<Rightarrow> nat \<Rightarrow> bool" where
  "evictable bm p = (case pageTable bm p of Some f \<Rightarrow> pageLatch f = Unlocked | None \<Rightarrow> False)"

definition resident :: "BufferFrame \<Rightarrow> bool" where
  "resident f \<longleftrightarrow> pageState f = IN_FIFO \<or> pageState f = IN_LRU"

definition frame_ok :: "'p BufferManager \<Rightarrow> nat \<Rightarrow> BufferFrame \<Rightarrow> bool" where
  "frame_ok bm p f \<longleftrightarrow>
     pid f = p \<and> pageState f \<noteq> LOADING
     \<and> (pageState f = IN_FIFO \<longleftrightarrow> p \<in> set (fifoList bm))
     \<and> (pageState f = IN_LRU \<longleftrightarrow> p \<in> set (lruList bm))
     \<and> (pageState f = NOT_LOADED \<longrightarrow> pageLatch f = Unlocked)
     \<and> (resident f \<longrightarrow> data f \<noteq> 0 \<and> heap bm (data f) \<noteq> None)"

definition bm_inv :: "'p BufferManager \<Rightarrow> bool" where
  "bm_inv bm \<longleftrightarrow>
     distinct (fifoList bm @ lruList bm)
     \<and> length (fifoList bm) + length (lruList bm) \<le> pageCount bm
     \<and> (\<forall>p \<in> set (fifoList bm @ lruList bm). pageTable bm p \<noteq> None)
     \<and> (\<forall>p f. pageTable bm p = Some f \<longrightarrow> frame_ok bm p f)
     \<and> (\<forall>p q f g. pageTable bm p = Some f \<and> pageTable bm q = Some g \<and> p \<noteq> q
            \<and> resident f \<and> resident g \<longrightarrow> data f \<noteq> data g)"

lemma update_frame_simps [simp]:
  "pageTable (update_frame bm p g) q = (if q = p then map_option g (pageTable bm p) else pageTable bm q)"
  "fifoList (update_frame bm p g) = fifoList bm"
  "lruList (update_frame bm p g) = lruList bm"
  "heap (update_frame bm p g) = heap bm"
  "segments (update_frame bm p g) = segments bm"
  "pageCount (update_frame bm p g) = pageCount bm"
  "pageSize (update_frame bm p g) = pageSize bm"
  by (simp_all add: update_frame_def)

lemma free_simps [simp]:
  "pageTable (free bm a) = pageTable bm"
  "fifoList (free bm a) = fifoList bm"
  "lruList (free bm a) = lruList bm"
  "heap (free bm a) = (heap bm)(a := None)"
  "segments (free bm a) = segments bm"
  "pageCount (free bm a) = pageCount bm"
  "pageSize (free bm a) = pageSize bm"
  by (simp_all add: free_def)

lemma flushPage_simps [simp]:
  "pageTable (flushPage bm p) q =
     (if q = p \<and> (\<exists>f. pageTable bm p = Some f \<and> heap bm (data f) \<noteq> None)
      then map_option (\<lambda>f. f\<lparr>isDirty := False\<rparr>) (pageTable bm p) else pageTable bm q)"
  "fifoList (flushPage bm p) = fifoList bm"
  "lruList (flushPage bm p) = lruList bm"
  "heap (flushPage bm p) = heap bm"
  "pageCount (flushPage bm p) = pageCount bm"
  "pageSize (flushPage bm p) = pageSize bm"
  by (auto simp: flushPage_def split: option.splits)

lemma segments_flushPage:
  "pageTable bm p = Some f \<Longrightarrow> heap bm (data f) = Some c \<Longrightarrow>
   segments (flushPage bm p) = (segments bm)(pid f := c)"
  by (simp add: flushPage_def)

lemma getBufferFrame_simps [simp]:
  "pageTable (getBufferFrame bm p) q =
     (if q = p \<and> pageTable bm p = None then Some (new_BufferFrame p) else pageTable bm q)"
  "fifoList (getBufferFrame bm p) = fifoList bm"
  "lruList (getBufferFrame bm p) = lruList bm"
  "heap (getBufferFrame bm p) = heap bm"
  "segments (getBufferFrame bm p) = segments bm"
  "pageCount (getBufferFrame bm p) = pageCount bm"
  "pageSize (getBufferFrame bm p) = pageSize bm"
  by (auto simp: getBufferFrame_def split: option.splits)

lemma lockEvictableFrame_from_none:
  "\<forall>p\<in>set ps. \<not> evictable bm p \<Longrightarrow> lockEvictableFrame_from bm ps i = (None, bm)"
  by (induction ps arbitrary: i) (auto simp: evictable_def try_lock_def split: option.splits)

lemma lockEvictableFrame_from_some:
  "\<forall>p\<in>set as. \<not> evictable bm p \<Longrightarrow> evictable bm v \<Longrightarrow>
   lockEvictableFrame_from bm (as @ v # bs) i
     = (Some (i + length as), update_frame bm v (\<lambda>f. f\<lparr>pageLatch := Exclusive\<rparr>))"
  by (induction as arbitrary: i) (auto simp: evictable_def try_lock_def split: option.splits)

lemma lockEvictableFrame_none:
  "\<forall>p\<in>set ps. \<not> evictable bm p \<Longrightarrow> lockEvictableFrame bm ps = (None, bm)"
  by (simp add: lockEvictableFrame_def lockEvictableFrame_from_none)

lemma lockEvictableFrame_some:
  "\<forall>p\<in>set as. \<not> evictable bm p \<Longrightarrow> evictable bm v \<Longrightarrow>
   lockEvictableFrame bm (as @ v # bs) = (Some (length as), update_frame bm v (\<lambda>f. f\<lparr>pageLatch := Exclusive\<rparr>))"
  by (simp add: lockEvictableFrame_def lockEvictableFrame_from_some)

lemma remove_nth_append: "remove_nth (length as) (as @ v # bs) = as @ bs"
  by (simp add: remove_nth_def)

lemma evict_effect:
  assumes "pageTable bm v = Some bf" and "pageState bf = st" and "data bf \<noteq> 0"
  shows "\<exists>bm'. evict bm v st = Some bm'
           \<and> fifoList bm' = fifoList bm \<and> lruList bm' = lruList bm
           \<and> pageCount bm' = pageCount bm \<and> pageSize bm' = pageSize bm
           \<and> heap bm' = (heap bm)(data bf := None)
           \<and> (\<forall>q. q \<noteq> v \<longrightarrow> pageTable bm' q = pageTable bm q)
           \<and> (\<exists>f'. pageTable bm' v = Some f' \<and> pageState f' = NOT_LOADED \<and> data f' = data bf
                  \<and> pid f' = pid bf \<and> pageLatch f' = unlock (pageLatch bf))
           \<and> segments bm' = (if isDirty bf then (case heap bm (data bf) of
                                   Some c \<Rightarrow> (segments bm)(pid bf := c) | None \<Rightarrow> segments bm)
                               else segments bm)"
proof (cases "isDirty bf")
  case False
  then show ?thesis using assms by (simp add: evict_def Let_def)
next
  case True
  show ?thesis
  proof (cases "heap bm (data bf)")
    case None
    then show ?thesis using assms True by (simp add: evict_def Let_def flushPage_def)
  next
    case (Some c)
    then show ?thesis using assms True
      by (simp add: evict_def Let_def segments_flushPage)
  qed
qed

lemma insertBufferFrame_free:
  "length (fifoList s) + length (lruList s) < pageCount s \<Longrightarrow>
   insertBufferFrame s p = Some (True, s\<lparr>fifoList := fifoList s @ [p]\<rparr>)"
  by (simp add: insertBufferFrame_def)

lemma insertBufferFrame_full:
  assumes "\<not> length (fifoList s) + length (lruList s) < pageCount s"
    and "\<forall>q\<in>set (fifoList s @ lruList s). \<not> evictable s q"
  shows "insertBufferFrame s p = Some (False, s)"
  using assms by (simp add: insertBufferFrame_def lockEvictableFrame_none)

lemma insertBufferFrame_evict_fifo:
  assumes "\<not> length (fifoList s) + length (lruList s) < pageCount s"
    and "fifoList s = as @ v # bs" and "\<forall>q\<in>set as. \<not> evictable s q" and "evictable s v"
  shows "insertBufferFrame s p =
     map_option (Pair True)
       (evict ((update_frame s v (\<lambda>f. f\<lparr>pageLatch := Exclusive\<rparr>))\<lparr>fifoList := as @ bs @ [p]\<rparr>) v IN_FIFO)"
  using assms
  by (simp add: insertBufferFrame_def lockEvictableFrame_some remove_nth_append Let_def)

lemma evictable_update_frame_other:
  "q \<noteq> v \<Longrightarrow> evictable (update_frame s v g) q = evictable s q"
  by (simp add: evictable_def)

lemma insertBufferFrame_evict_lru:
  assumes "\<not> length (fifoList s) + length (lruList s) < pageCount s"
    and "\<forall>q\<in>set (fifoList s). \<not> evictable s q"
    and "lruList s = as @ v # bs" and "\<forall>q\<in>set as. \<not> evictable s q" and "evictable s v"
  shows "insertBufferFrame s p =
     map_option (Pair True)
       (evict ((update_frame s v (\<lambda>f. f\<lparr>pageLatch := Exclusive\<rparr>))\<lparr>lruList := as @ bs, fifoList := fifoList s @ [p]\<rparr>) v IN_LRU)"
  using assms
  by (simp add: insertBufferFrame_def lockEvictableFrame_none lockEvictableFrame_some remove_nth_append Let_def)

definition not_resident :: "'p BufferManager \<Rightarrow> nat \<Rightarrow> bool" where
  "not_resident bm p = (case pageTable bm p of None \<Rightarrow> True | Some f \<Rightarrow> pageState f = NOT_LOADED)"

definition mode_latch :: "bool \<Rightarrow> Latch" where
  "mode_latch exclusive = (if exclusive then Exclusive else Shared 1)"

definition frame_of :: "'p BufferManager \<Rightarrow> nat \<Rightarrow> BufferFrame" where
  "frame_of bm p = (case pageTable bm p of None \<Rightarrow> new_BufferFrame p | Some f \<Rightarrow> f)"

definition loading_state :: "'p BufferManager \<Rightarrow> nat \<Rightarrow> Latch \<Rightarrow> 'p BufferManager" where
  "loading_state bm p l =
     update_frame (update_frame (getBufferFrame bm p) p (\<lambda>f. f\<lparr>pageLatch := l\<rparr>)) p
       (\<lambda>f. f\<lparr>pageState := LOADING\<rparr>)"

lemma loading_state_simps [simp]:
  "pageTable (loading_state bm p l) q =
     (if q = p then Some ((frame_of bm p)\<lparr>pageLatch := l, pageState := LOADING\<rparr>) else pageTable bm q)"
  "fifoList (loading_state bm p l) = fifoList bm"
  "lruList (loading_state bm p l) = lruList bm"
  "heap (loading_state bm p l) = heap bm"
  "segments (loading_state bm p l) = segments bm"
  "pageCount (loading_state bm p l) = pageCount bm"
  "pageSize (loading_state bm p l) = pageSize bm"
  by (auto simp: loading_state_def frame_of_def split: option.splits)

lemma not_resident_frame:
  assumes "bm_inv bm" and "not_resident bm p"
  shows "pageState (frame_of bm p) = NOT_LOADED" "pageLatch (frame_of bm p) = Unlocked"
    "pid (frame_of bm p) = p" "p \<notin> set (fifoList bm)" "p \<notin> set (lruList bm)"
proof -
  show "pageState (frame_of bm p) = NOT_LOADED" "pageLatch (frame_of bm p) = Unlocked"
    "pid (frame_of bm p) = p"
    using assms
    by (auto simp: bm_inv_def not_resident_def frame_of_def frame_ok_def new_BufferFrame_def
             split: option.splits)
  show "p \<notin> set (fifoList bm)" "p \<notin> set (lruList bm)"
  proof -
    have tbl: "\<forall>q \<in> set (fifoList bm @ lruList bm). pageTable bm q \<noteq> None"
      using assms(1) by (simp add: bm_inv_def)
    have ok: "\<forall>f. pageTable bm p = Some f \<longrightarrow> frame_ok bm p f"
      using assms(1) by (simp add: bm_inv_def)
    show "p \<notin> set (fifoList bm)"
    proof (cases "pageTable bm p")
      case None
      then show ?thesis using tbl by force
    next
      case (Some f)
      then have "pageState f = NOT_LOADED" using assms(2) by (simp add: not_resident_def)
      then show ?thesis using ok Some by (auto simp: frame_ok_def)
    qed
    show "p \<notin> set (lruList bm)"
    proof (cases "pageTable bm p")
      case None
      then show ?thesis using tbl by force
    next
      case (Some f)
      then have "pageState f = NOT_LOADED" using assms(2) by (simp add: not_resident_def)
      then show ?thesis using ok Some by (auto simp: frame_ok_def)
    qed
  qed
qed

lemma fix_page_not_resident_unfold:
  assumes "bm_inv bm" and "not_resident bm p"
  shows "fix_page bm p e a =
     (case insertBufferFrame (loading_state bm p (mode_latch e)) p of
        None \<Rightarrow> assertion_failed
      | Some (False, s2) \<Rightarrow>
          buffer_full_error (update_frame (update_frame s2 p (\<lambda>f. f\<lparr>pageState := NOT_LOADED\<rparr>)) p
                               (\<lambda>f. f\<lparr>pageLatch := unlock (pageLatch f)\<rparr>))
      | Some (True, s2) \<Rightarrow>
          (let (d, s3) = malloc s2 a (segments s2 p)
           in if d = 0 then assertion_failed
              else Fixed (update_frame s3 p (\<lambda>f. f\<lparr>data := d, pageState := IN_FIFO\<rparr>))))"
proof -
  let ?g = "getBufferFrame bm p"
  have g: "pageTable ?g p = Some (frame_of bm p)"
    by (simp add: frame_of_def split: option.splits)
  note fr = not_resident_frame [OF assms]
  have l: "(if e then lock (pageLatch (frame_of bm p)) else lock_shared (pageLatch (frame_of bm p)))
           = Some (mode_latch e)"
    using fr(2) by (simp add: lock_def lock_shared_def mode_latch_def)
  have ls: "update_frame (update_frame ?g p (\<lambda>f. f\<lparr>pageLatch := mode_latch e\<rparr>)) p (\<lambda>f. f\<lparr>pageState := LOADING\<rparr>)
            = loading_state bm p (mode_latch e)"
    by (simp add: loading_state_def)
  have lp: "loadPage (update_frame ?g p (\<lambda>f. f\<lparr>pageLatch := mode_latch e\<rparr>)) p a =
     (case insertBufferFrame (loading_state bm p (mode_latch e)) p of
               None \<Rightarrow> assertion_failed
             | Some (False, bm2) \<Rightarrow> Fixed (False, update_frame bm2 p (\<lambda>f. f\<lparr>pageState := NOT_LOADED\<rparr>))
             | Some (True, bm2) \<Rightarrow>
                 (let (d, bm3) = malloc bm2 a (segments bm2 p)
                  in if d = 0 then assertion_failed
                     else Fixed (True, update_frame bm3 p (\<lambda>f. f\<lparr>data := d, pageState := IN_FIFO\<rparr>))))"
    using g fr(1) by (simp add: loadPage_def Let_def ls)
  show ?thesis
    unfolding fix_page_def Let_def g option.case l fr(1) PageState.case lp
    by (auto split: option.splits prod.splits bool.splits simp: Let_def)
qed

lemma evictable_loading_state:
  "q \<noteq> p \<Longrightarrow> evictable (loading_state bm p l) q = evictable bm q"
  by (simp add: evictable_def)

lemma unlock_mode_latch [simp]: "unlock (mode_latch e) = Unlocked"
  by (simp add: unlock_def mode_latch_def)

lemma scan_loading_state:
  assumes "bm_inv bm" and "not_resident bm p" and "set xs \<subseteq> set (fifoList bm @ lruList bm)"
  shows "(\<forall>q\<in>set xs. \<not> evictable (loading_state bm p l) q) \<longleftrightarrow> (\<forall>q\<in>set xs. \<not> evictable bm q)"
proof -
  have "\<forall>q\<in>set xs. q \<noteq> p"
    using not_resident_frame(4,5) [OF assms(1,2)] assms(3) by auto
  then show ?thesis by (simp add: evictable_loading_state)
qed

lemma fix_page_throw:
  assumes inv: "bm_inv bm" and nr: "not_resident bm p"
    and full: "\<not> length (fifoList bm) + length (lruList bm) < pageCount bm"
    and none: "\<forall>q\<in>set (fifoList bm @ lruList bm). \<not> evictable bm q"
  shows "\<exists>bm'. fix_page bm p e a = buffer_full_error bm'
           \<and> fifoList bm' = fifoList bm \<and> lruList bm' = lruList bm \<and> heap bm' = heap bm
           \<and> segments bm' = segments bm \<and> pageCount bm' = pageCount bm
           \<and> (\<forall>q. q \<noteq> p \<longrightarrow> pageTable bm' q = pageTable bm q)
           \<and> pageTable bm' p = Some (frame_of bm p)"
proof -
  let ?s = "loading_state bm p (mode_latch e)"
  have n: "\<forall>q\<in>set (fifoList ?s @ lruList ?s). \<not> evictable ?s q"
    using scan_loading_state [OF inv nr, of "fifoList bm @ lruList bm" "mode_latch e"] none by simp
  have f: "\<not> length (fifoList ?s) + length (lruList ?s) < pageCount ?s" using full by simp
  have ins: "insertBufferFrame ?s p = Some (False, ?s)"
    using f n by (rule insertBufferFrame_full)
  note fr = not_resident_frame [OF inv nr]
  have same: "(frame_of bm p)\<lparr>pageState := NOT_LOADED, pageLatch := Unlocked\<rparr> = frame_of bm p"
    using fr(1,2) by simp
  show ?thesis
    unfolding fix_page_not_resident_unfold [OF inv nr] ins
    using same by simp
qed

text \<open>
  The answer \<open>a\<close> of \<^verbatim>\<open>malloc\<close> is a buffer when it is not null and not the address of a
  live buffer; otherwise \<^verbatim>\<open>assert(frame.data)\<close> fails.
\<close>

lemma fix_page_free:
  assumes inv: "bm_inv bm" and nr: "not_resident bm p"
    and free: "length (fifoList bm) + length (lruList bm) < pageCount bm"
  shows "\<exists>bm'. fix_page bm p e a = (if a \<noteq> 0 \<and> heap bm a = None then Fixed bm' else assertion_failed)
           \<and> fifoList bm' = fifoList bm @ [p] \<and> lruList bm' = lruList bm
           \<and> heap bm' = (heap bm)(a \<mapsto> segments bm p)
           \<and> segments bm' = segments bm \<and> pageCount bm' = pageCount bm
           \<and> (\<forall>q. q \<noteq> p \<longrightarrow> pageTable bm' q = pageTable bm q)
           \<and> pageTable bm' p = Some ((frame_of bm p)\<lparr>pageLatch := mode_latch e, pageState := IN_FIFO, data := a\<rparr>)"
proof -
  let ?s = "loading_state bm p (mode_latch e)"
  let ?b = "update_frame (?s\<lparr>fifoList := fifoList ?s @ [p], heap := (heap ?s)(a \<mapsto> segments ?s p)\<rparr>) p
              (\<lambda>f. f\<lparr>data := a, pageState := IN_FIFO\<rparr>)"
  have f: "length (fifoList ?s) + length (lruList ?s) < pageCount ?s" using free by simp
  have ins: "insertBufferFrame ?s p = Some (True, ?s\<lparr>fifoList := fifoList ?s @ [p]\<rparr>)"
    using f by (rule insertBufferFrame_free)
  have "fix_page bm p e a = (if a \<noteq> 0 \<and> heap bm a = None then Fixed ?b else assertion_failed)"
    unfolding fix_page_not_resident_unfold [OF inv nr] ins
    by (simp add: malloc_def)
  then show ?thesis
    by (intro exI [of _ ?b]) (simp add: update_frame_def)
qed

lemma fix_page_after_evict:
  assumes inv: "bm_inv bm" and nr: "not_resident bm p"
    and ins: "insertBufferFrame (loading_state bm p (mode_latch e)) p = Some (True, s2)"
    and s2: "pageTable s2 p = Some ((frame_of bm p)\<lparr>pageLatch := mode_latch e, pageState := LOADING\<rparr>)"
  shows "\<exists>bm'. fix_page bm p e a = (if a \<noteq> 0 \<and> heap s2 a = None then Fixed bm' else assertion_failed)
           \<and> fifoList bm' = fifoList s2 \<and> lruList bm' = lruList s2
           \<and> heap bm' = (heap s2)(a \<mapsto> segments s2 p)
           \<and> segments bm' = segments s2 \<and> pageCount bm' = pageCount s2
           \<and> (\<forall>q. q \<noteq> p \<longrightarrow> pageTable bm' q = pageTable s2 q)
           \<and> pageTable bm' p = Some ((frame_of bm p)\<lparr>pageLatch := mode_latch e, pageState := IN_FIFO, data := a\<rparr>)"
proof -
  let ?b = "update_frame (s2\<lparr>heap := (heap s2)(a \<mapsto> segments s2 p)\<rparr>) p
              (\<lambda>f. f\<lparr>data := a, pageState := IN_FIFO\<rparr>)"
  have "fix_page bm p e a = (if a \<noteq> 0 \<and> heap s2 a = None then Fixed ?b else assertion_failed)"
    unfolding fix_page_not_resident_unfold [OF inv nr] ins
    by (simp add: malloc_def)
  then show ?thesis
    using s2 by (intro exI [of _ ?b]) (simp add: update_frame_def)
qed

lemma listed_frame:
  assumes inv: "bm_inv bm" and mem: "v \<in> set (fifoList bm @ lruList bm)"
  obtains fv where "pageTable bm v = Some fv" "pid fv = v" "data fv \<noteq> 0" "resident fv"
    "pageState fv = IN_FIFO \<longleftrightarrow> v \<in> set (fifoList bm)"
    "pageState fv = IN_LRU \<longleftrightarrow> v \<in> set (lruList bm)"
    "heap bm (data fv) \<noteq> None"
proof -
  from inv mem obtain fv where fv: "pageTable bm v = Some fv"
    unfolding bm_inv_def by fastforce
  then have ok: "frame_ok bm v fv" using inv unfolding bm_inv_def by blast
  have res: "resident fv" using ok mem by (auto simp: frame_ok_def resident_def)
  show thesis
    using that [OF fv] ok res by (simp add: frame_ok_def)
qed

lemma unlock_Exclusive [simp]: "unlock Exclusive = Unlocked"
  by (simp add: unlock_def)

lemma insertBufferFrame_evicts:
  assumes inv: "bm_inv bm" and nr: "not_resident bm p"
    and full: "\<not> length (fifoList bm) + length (lruList bm) < pageCount bm"
    and split: "fifoList bm @ lruList bm = as @ v # bs"
    and none: "\<forall>q\<in>set as. \<not> evictable bm q" and ev: "evictable bm v"
  shows "\<exists>s2 fv. insertBufferFrame (loading_state bm p (mode_latch e)) p = Some (True, s2)
           \<and> pageTable bm v = Some fv \<and> v \<noteq> p
           \<and> fifoList s2 = remove1 v (fifoList bm) @ [p] \<and> lruList s2 = remove1 v (lruList bm)
           \<and> pageCount s2 = pageCount bm
           \<and> heap s2 = (heap bm)(data fv := None)
           \<and> (\<forall>q. q \<noteq> v \<and> q \<noteq> p \<longrightarrow> pageTable s2 q = pageTable bm q)
           \<and> pageTable s2 p = Some ((frame_of bm p)\<lparr>pageLatch := mode_latch e, pageState := LOADING\<rparr>)
           \<and> (\<exists>f'. pageTable s2 v = Some f' \<and> pageState f' = NOT_LOADED \<and> data f' = data fv
                  \<and> pid f' = v \<and> pageLatch f' = Unlocked)
           \<and> segments s2 = (if isDirty fv then (case heap bm (data fv) of
                                   Some c \<Rightarrow> (segments bm)(v := c) | None \<Rightarrow> segments bm)
                               else segments bm)"
proof -
  let ?s = "loading_state bm p (mode_latch e)"
  have mem: "v \<in> set (fifoList bm @ lruList bm)" unfolding split by simp
  from listed_frame [OF inv mem] obtain fv where fv: "pageTable bm v = Some fv" "pid fv = v"
    "data fv \<noteq> 0" "resident fv" "pageState fv = IN_FIFO \<longleftrightarrow> v \<in> set (fifoList bm)"
    "pageState fv = IN_LRU \<longleftrightarrow> v \<in> set (lruList bm)" by blast
  note fr = not_resident_frame [OF inv nr]
  have vp: "v \<noteq> p" using mem fr(4,5) by auto
  have dist: "distinct (as @ v # bs)" using inv unfolding bm_inv_def split [symmetric] by simp
  have f: "\<not> length (fifoList ?s) + length (lruList ?s) < pageCount ?s" using full by simp
  have as_sub: "set as \<subseteq> set (fifoList bm @ lruList bm)" unfolding split by auto
  have none': "\<forall>q\<in>set as. \<not> evictable ?s q"
    using scan_loading_state [OF inv nr as_sub] none by simp
  have ev': "evictable ?s v" using ev vp by (simp add: evictable_loading_state)
  from split consider
    (fifo) us where "fifoList bm = as @ v # us" "bs = us @ lruList bm"
    | (lru) us where "as = fifoList bm @ us" "lruList bm = us @ v # bs"
    by (auto simp: append_eq_append_conv2 append_eq_Cons_conv Cons_eq_append_conv)
  then show ?thesis
  proof cases
    case fifo
    have st: "pageState fv = IN_FIFO" using fv(5) fifo(1) by simp
    have r1: "remove1 v (fifoList bm) = as @ us"
      using dist fifo by (simp add: remove1_append)
    have r2: "remove1 v (lruList bm) = lruList bm"
      using dist fifo by (simp add: remove1_idem)
    let ?t = "(update_frame ?s v (\<lambda>f. f\<lparr>pageLatch := Exclusive\<rparr>))\<lparr>fifoList := as @ us @ [p]\<rparr>"
    have ins: "insertBufferFrame ?s p = map_option (Pair True) (evict ?t v IN_FIFO)"
      using f fifo(1) none' ev' by (intro insertBufferFrame_evict_fifo) simp_all
    have tv: "pageTable ?t v = Some (fv\<lparr>pageLatch := Exclusive\<rparr>)"
      using fv(1) vp by simp
    have "\<exists>s2. evict ?t v IN_FIFO = Some s2
      \<and> fifoList s2 = as @ us @ [p] \<and> lruList s2 = lruList bm
      \<and> pageCount s2 = pageCount bm \<and> heap s2 = (heap bm)(data fv := None)
      \<and> (\<forall>q. q \<noteq> v \<and> q \<noteq> p \<longrightarrow> pageTable s2 q = pageTable bm q)
      \<and> pageTable s2 p = Some ((frame_of bm p)\<lparr>pageLatch := mode_latch e, pageState := LOADING\<rparr>)
      \<and> (\<exists>f'. pageTable s2 v = Some f' \<and> pageState f' = NOT_LOADED \<and> data f' = data fv
                  \<and> pid f' = v \<and> pageLatch f' = Unlocked)
      \<and> segments s2 = (if isDirty fv then (case heap bm (data fv) of
                                   Some c \<Rightarrow> (segments bm)(v := c) | None \<Rightarrow> segments bm)
                               else segments bm)"
      using evict_effect [OF tv, of IN_FIFO] st fv(2,3) vp
      apply (simp cong: if_cong option.case_cong split del: if_split)
      apply (elim exE conjE)
      apply (intro exI conjI)
               apply assumption
              apply (simp_all split del: if_split)
      done
    then show ?thesis
      using ins fv(1) vp r1 r2 by auto
  next
    case lru
    have st: "pageState fv = IN_LRU" using fv(6) lru(2) by simp
    have r1: "remove1 v (fifoList bm) = fifoList bm"
      using dist lru by (simp add: remove1_idem)
    have r2: "remove1 v (lruList bm) = us @ bs"
      using dist lru by (simp add: remove1_append)
    let ?t = "(update_frame ?s v (\<lambda>f. f\<lparr>pageLatch := Exclusive\<rparr>))\<lparr>lruList := us @ bs, fifoList := fifoList ?s @ [p]\<rparr>"
    have nf: "\<forall>q\<in>set (fifoList ?s). \<not> evictable ?s q" using none' lru(1) by simp
    have nu: "\<forall>q\<in>set us. \<not> evictable ?s q" using none' lru(1) by simp
    have ins: "insertBufferFrame ?s p = map_option (Pair True) (evict ?t v IN_LRU)"
      using f nf lru(2) nu ev' by (intro insertBufferFrame_evict_lru) simp_all
    have tv: "pageTable ?t v = Some (fv\<lparr>pageLatch := Exclusive\<rparr>)"
      using fv(1) vp by simp
    have "\<exists>s2. evict ?t v IN_LRU = Some s2
      \<and> fifoList s2 = fifoList bm @ [p] \<and> lruList s2 = us @ bs
      \<and> pageCount s2 = pageCount bm \<and> heap s2 = (heap bm)(data fv := None)
      \<and> (\<forall>q. q \<noteq> v \<and> q \<noteq> p \<longrightarrow> pageTable s2 q = pageTable bm q)
      \<and> pageTable s2 p = Some ((frame_of bm p)\<lparr>pageLatch := mode_latch e, pageState := LOADING\<rparr>)
      \<and> (\<exists>f'. pageTable s2 v = Some f' \<and> pageState f' = NOT_LOADED \<and> data f' = data fv
                  \<and> pid f' = v \<and> pageLatch f' = Unlocked)
      \<and> segments s2 = (if isDirty fv then (case heap bm (data fv) of
                                   Some c \<Rightarrow> (segments bm)(v := c) | None \<Rightarrow> segments bm)
                               else segments bm)"
      using evict_effect [OF tv, of IN_LRU] st fv(2,3) vp
      apply (simp cong: if_cong option.case_cong split del: if_split)
      apply (elim exE conjE)
      apply (intro exI conjI)
               apply assumption
              apply (simp_all split del: if_split)
      done
    then show ?thesis
      using ins fv(1) vp r1 r2 by auto
  qed
qed

lemma fix_page_evict:
  assumes inv: "bm_inv bm" and nr: "not_resident bm p"
    and full: "\<not> length (fifoList bm) + length (lruList bm) < pageCount bm"
    and split: "fifoList bm @ lruList bm = as @ v # bs"
    and none: "\<forall>q\<in>set as. \<not> evictable bm q" and ev: "evictable bm v"
  shows "\<exists>bm' fv. fix_page bm p e a
              = (if a \<noteq> 0 \<and> (a = data fv \<or> heap bm a = None) then Fixed bm' else assertion_failed)
           \<and> pageTable bm v = Some fv \<and> v \<noteq> p
           \<and> fifoList bm' = remove1 v (fifoList bm) @ [p] \<and> lruList bm' = remove1 v (lruList bm)
           \<and> pageCount bm' = pageCount bm
           \<and> heap bm' = (heap bm)(data fv := None, a \<mapsto> segments bm' p)
           \<and> (\<forall>q. q \<noteq> v \<and> q \<noteq> p \<longrightarrow> pageTable bm' q = pageTable bm q)
           \<and> pageTable bm' p = Some ((frame_of bm p)\<lparr>pageLatch := mode_latch e, pageState := IN_FIFO, data := a\<rparr>)
           \<and> (\<exists>f'. pageTable bm' v = Some f' \<and> pageState f' = NOT_LOADED \<and> data f' = data fv
                  \<and> pid f' = v \<and> pageLatch f' = Unlocked)
           \<and> segments bm' = (if isDirty fv then (case heap bm (data fv) of
                                   Some c \<Rightarrow> (segments bm)(v := c) | None \<Rightarrow> segments bm)
                               else segments bm)"
proof -
  from insertBufferFrame_evicts [OF inv nr full split none ev, of e]
  obtain s2 fv where s2: "insertBufferFrame (loading_state bm p (mode_latch e)) p = Some (True, s2)"
     "pageTable bm v = Some fv" "v \<noteq> p"
     "fifoList s2 = remove1 v (fifoList bm) @ [p]" "lruList s2 = remove1 v (lruList bm)"
     "pageCount s2 = pageCount bm"
     "heap s2 = (heap bm)(data fv := None)"
     "\<forall>q. q \<noteq> v \<and> q \<noteq> p \<longrightarrow> pageTable s2 q = pageTable bm q"
     "pageTable s2 p = Some ((frame_of bm p)\<lparr>pageLatch := mode_latch e, pageState := LOADING\<rparr>)"
     "\<exists>f'. pageTable s2 v = Some f' \<and> pageState f' = NOT_LOADED \<and> data f' = data fv
                  \<and> pid f' = v \<and> pageLatch f' = Unlocked"
     "segments s2 = (if isDirty fv then (case heap bm (data fv) of
                                   Some c \<Rightarrow> (segments bm)(v := c) | None \<Rightarrow> segments bm)
                               else segments bm)"
    by (elim exE conjE) (rule that, (assumption | blast)+)
  from fix_page_after_evict [OF inv nr s2(1,9), of a]
  obtain bm' where bm': "fix_page bm p e a = (if a \<noteq> 0 \<and> heap s2 a = None then Fixed bm' else assertion_failed)"
     "fifoList bm' = fifoList s2" "lruList bm' = lruList s2"
     "heap bm' = (heap s2)(a \<mapsto> segments s2 p)"
     "segments bm' = segments s2" "pageCount bm' = pageCount s2"
     "\<forall>q. q \<noteq> p \<longrightarrow> pageTable bm' q = pageTable s2 q"
     "pageTable bm' p = Some ((frame_of bm p)\<lparr>pageLatch := mode_latch e, pageState := IN_FIFO, data := a\<rparr>)"
    by (elim exE conjE) (rule that)
  have v: "\<exists>f'. pageTable bm' v = Some f' \<and> pageState f' = NOT_LOADED \<and> data f' = data fv
                  \<and> pid f' = v \<and> pageLatch f' = Unlocked"
    using bm'(7) s2(3,10) by simp
  have others: "\<forall>q. q \<noteq> v \<and> q \<noteq> p \<longrightarrow> pageTable bm' q = pageTable bm q"
    using bm'(7) s2(8) by simp
  have cond: "(a \<noteq> 0 \<and> heap s2 a = None) \<longleftrightarrow> (a \<noteq> 0 \<and> (a = data fv \<or> heap bm a = None))"
    unfolding s2(7) by auto
  have res: "fix_page bm p e a
              = (if a \<noteq> 0 \<and> (a = data fv \<or> heap bm a = None) then Fixed bm' else assertion_failed)"
    unfolding bm'(1) cond ..
  show ?thesis
    apply (rule exI [of _ bm'], rule exI [of _ fv])
    using res bm'(2,3,4,5,6,8) s2(2,3,4,5,6,7,11) v others
    by (simp split del: if_split)
qed

lemma bm_invD:
  assumes "bm_inv bm"
  shows "distinct (fifoList bm @ lruList bm)"
    "length (fifoList bm) + length (lruList bm) \<le> pageCount bm"
    "\<And>p. p \<in> set (fifoList bm @ lruList bm) \<Longrightarrow> pageTable bm p \<noteq> None"
    "\<And>p f. pageTable bm p = Some f \<Longrightarrow> frame_ok bm p f"
    "\<And>p q f g. pageTable bm p = Some f \<Longrightarrow> pageTable bm q = Some g \<Longrightarrow> p \<noteq> q
        \<Longrightarrow> resident f \<Longrightarrow> resident g \<Longrightarrow> data f \<noteq> data g"
  using assms unfolding bm_inv_def by blast+

lemma bm_invI:
  assumes "distinct (fifoList bm @ lruList bm)"
    "length (fifoList bm) + length (lruList bm) \<le> pageCount bm"
    "\<And>p. p \<in> set (fifoList bm @ lruList bm) \<Longrightarrow> pageTable bm p \<noteq> None"
    "\<And>p f. pageTable bm p = Some f \<Longrightarrow> frame_ok bm p f"
    "\<And>p q f g. pageTable bm p = Some f \<Longrightarrow> pageTable bm q = Some g \<Longrightarrow> p \<noteq> q
        \<Longrightarrow> resident f \<Longrightarrow> resident g \<Longrightarrow> data f \<noteq> data g"
  shows "bm_inv bm"
  using assms unfolding bm_inv_def by blast

lemma frame_of_ok:
  assumes "bm_inv bm" and "not_resident bm p"
  shows "frame_ok bm p (frame_of bm p)" "\<not> resident (frame_of bm p)"
  using not_resident_frame [OF assms]
  by (auto simp: frame_ok_def resident_def)

lemma inv_after_throw:
  assumes inv: "bm_inv bm" and nr: "not_resident bm p"
    and pr: "fifoList bm' = fifoList bm" "lruList bm' = lruList bm" "heap bm' = heap bm"
      "pageCount bm' = pageCount bm"
      "\<forall>q. q \<noteq> p \<longrightarrow> pageTable bm' q = pageTable bm q"
      "pageTable bm' p = Some (frame_of bm p)"
  shows "bm_inv bm'"
proof (rule bm_invI)
  note d = bm_invD [OF inv]
  show "distinct (fifoList bm' @ lruList bm')" using d(1) pr by simp
  show "length (fifoList bm') + length (lruList bm') \<le> pageCount bm'" using d(2) pr by simp
  show "pageTable bm' q \<noteq> None" if "q \<in> set (fifoList bm' @ lruList bm')" for q
    using d(3) [of q] that pr by (cases "q = p") auto
  have ok_eq: "frame_ok bm' q f = frame_ok bm q f" for q f
    using pr by (simp add: frame_ok_def)
  show "frame_ok bm' q f" if "pageTable bm' q = Some f" for q f
  proof (cases "q = p")
    case True
    then show ?thesis using that pr(6) frame_of_ok(1) [OF inv nr] ok_eq by simp
  next
    case False
    then show ?thesis using that pr(5) d(4) ok_eq by simp
  qed
  show "data f \<noteq> data g"
    if "pageTable bm' q = Some f" "pageTable bm' r = Some g" "q \<noteq> r" "resident f" "resident g"
    for q r f g
  proof -
    have "q \<noteq> p" using that(1,4) pr(6) frame_of_ok(2) [OF inv nr] by auto
    moreover have "r \<noteq> p" using that(2,5) pr(6) frame_of_ok(2) [OF inv nr] by auto
    ultimately show ?thesis using that pr(5) d(5) [of q f r g] by simp
  qed
qed

lemma inv_after_free_load:
  assumes inv: "bm_inv bm" and nr: "not_resident bm p"
    and free: "length (fifoList bm) + length (lruList bm) < pageCount bm"
    and fresh: "a \<noteq> 0" "heap bm a = None"
    and pr: "fifoList bm' = fifoList bm @ [p]" "lruList bm' = lruList bm"
      "heap bm' = (heap bm)(a \<mapsto> c)"
      "pageCount bm' = pageCount bm"
      "\<forall>q. q \<noteq> p \<longrightarrow> pageTable bm' q = pageTable bm q"
      "pageTable bm' p = Some ((frame_of bm p)\<lparr>pageLatch := l, pageState := IN_FIFO, data := a\<rparr>)"
  shows "bm_inv bm'"
proof (rule bm_invI)
  note d = bm_invD [OF inv]
  note fr = not_resident_frame [OF inv nr]
  show "distinct (fifoList bm' @ lruList bm')" using d(1) pr fr(4,5) by simp
  show "length (fifoList bm') + length (lruList bm') \<le> pageCount bm'" using free pr by simp
  show "pageTable bm' q \<noteq> None" if "q \<in> set (fifoList bm' @ lruList bm')" for q
    using d(3) [of q] that pr by (cases "q = p") auto
  show "frame_ok bm' q f" if "pageTable bm' q = Some f" for q f
  proof (cases "q = p")
    case True
    then show ?thesis using that pr fr fresh by (auto simp: frame_ok_def resident_def)
  next
    case False
    then have "frame_ok bm q f" using that pr(5) d(4) by simp
    then show ?thesis using False pr by (auto simp: frame_ok_def)
  qed
  show "data f \<noteq> data g"
    if "pageTable bm' q = Some f" "pageTable bm' r = Some g" "q \<noteq> r" "resident f" "resident g"
    for q r f g
  proof -
    have live: "data h \<noteq> a" if "pageTable bm' s = Some h" "s \<noteq> p" "resident h" for s h
    proof -
      have "frame_ok bm s h" using that pr(5) d(4) [of s h] by simp
      then have "heap bm (data h) \<noteq> None" using that(3) by (simp add: frame_ok_def)
      then show ?thesis using fresh(2) by auto
    qed
    consider "q = p" | "r = p" | "q \<noteq> p" "r \<noteq> p" by blast
    then show ?thesis
    proof cases
      case 1
      then show ?thesis using that pr(6) live [of r g] by auto
    next
      case 2
      then show ?thesis using that pr(6) live [of q f] by auto
    next
      case 3
      then show ?thesis using that pr(5) d(5) [of q f r g] by simp
    qed
  qed
qed

lemma inv_after_evict_load:
  assumes inv: "bm_inv bm" and nr: "not_resident bm p"
    and mem: "v \<in> set (fifoList bm @ lruList bm)"
    and fresh: "a \<noteq> 0" "a = data fv \<or> heap bm a = None"
    and pr: "pageTable bm v = Some fv" "v \<noteq> p"
      "fifoList bm' = remove1 v (fifoList bm) @ [p]" "lruList bm' = remove1 v (lruList bm)"
      "pageCount bm' = pageCount bm"
      "heap bm' = (heap bm)(data fv := None, a \<mapsto> c)"
      "\<forall>q. q \<noteq> v \<and> q \<noteq> p \<longrightarrow> pageTable bm' q = pageTable bm q"
      "pageTable bm' p = Some ((frame_of bm p)\<lparr>pageLatch := l, pageState := IN_FIFO, data := a\<rparr>)"
      "\<exists>f'. pageTable bm' v = Some f' \<and> pageState f' = NOT_LOADED \<and> data f' = data fv
                  \<and> pid f' = v \<and> pageLatch f' = Unlocked"
  shows "bm_inv bm'"
proof (rule bm_invI)
  note d = bm_invD [OF inv]
  note fr = not_resident_frame [OF inv nr]
  have okv: "frame_ok bm v fv" using d(4) pr(1) .
  have resv: "resident fv" using okv mem by (auto simp: frame_ok_def resident_def)
  have dist: "distinct (fifoList bm)" "distinct (lruList bm)" "set (fifoList bm) \<inter> set (lruList bm) = {}"
    using d(1) by auto
  have sets: "set (fifoList bm') = set (fifoList bm) - {v} \<union> {p}" "set (lruList bm') = set (lruList bm) - {v}"
    using pr(3,4) dist by (auto simp: set_remove1_eq)
  have len: "length (remove1 v (fifoList bm)) + length (remove1 v (lruList bm)) + 1
             = length (fifoList bm) + length (lruList bm)"
    using mem dist by (auto simp: length_remove1 remove1_idem) (metis One_nat_def Suc_pred length_pos_if_in_set)+
  have live: "data h \<noteq> data fv" "data h \<noteq> a" "heap bm (data h) \<noteq> None"
    if "pageTable bm s = Some h" "s \<noteq> v" "resident h" for s h
  proof -
    show 1: "data h \<noteq> data fv" using d(5) [OF that(1) pr(1) that(2) that(3) resv] .
    have "frame_ok bm s h" using that(1) d(4) by simp
    then show 2: "heap bm (data h) \<noteq> None" using that(3) by (simp add: frame_ok_def)
    show "data h \<noteq> a" using fresh(2) 1 2 by auto
  qed
  show "distinct (fifoList bm' @ lruList bm')"
    using dist pr(3,4) fr(4,5) by (auto simp: distinct_remove1 dest: notin_set_remove1)
  show "length (fifoList bm') + length (lruList bm') \<le> pageCount bm'"
    using d(2) len pr by simp
  show "pageTable bm' q \<noteq> None" if qm: "q \<in> set (fifoList bm' @ lruList bm')" for q
  proof -
    consider "q = p" | "q \<noteq> p" "q \<noteq> v" "q \<in> set (fifoList bm @ lruList bm)"
      using qm sets by auto
    then show ?thesis using pr(7,8) d(3) [of q] by cases auto
  qed
  show "frame_ok bm' q f" if "pageTable bm' q = Some f" for q f
  proof -
    consider "q = p" | "q = v" | "q \<noteq> p" "q \<noteq> v" by blast
    then show ?thesis
    proof cases
      case 1
      then show ?thesis using that pr fr sets fresh(1) by (auto simp: frame_ok_def resident_def)
    next
      case 2
      then show ?thesis using that pr okv sets fr
        by (auto simp: frame_ok_def resident_def)
    next
      case 3
      then have ok: "frame_ok bm q f" and tb: "pageTable bm q = Some f" using that pr(7) d(4) by simp_all
      have "resident f \<Longrightarrow> heap bm' (data f) \<noteq> None"
        using live [OF tb 3(2)] pr(6) by simp
      then show ?thesis using ok 3 sets
        by (auto simp: frame_ok_def)
    qed
  qed
  show "data f \<noteq> data g"
    if "pageTable bm' q = Some f" "pageTable bm' r = Some g" "q \<noteq> r" "resident f" "resident g"
    for q r f g
  proof -
    have nv: "s \<noteq> v" if "pageTable bm' s = Some h" "resident h" for s h
      using that pr(9) by (auto simp: resident_def)
    have na: "data h \<noteq> a" if "pageTable bm' s = Some h" "s \<noteq> p" "resident h" for s h
    proof -
      have "s \<noteq> v" using nv that by blast
      then show ?thesis using live(2) [of s h] that pr(7) by simp
    qed
    consider "q = p" | "r = p" | "q \<noteq> p" "r \<noteq> p" by blast
    then show ?thesis
    proof cases
      case 1
      then show ?thesis using that pr(8) na [of r g] by auto
    next
      case 2
      then show ?thesis using that pr(8) na [of q f] by auto
    next
      case 3
      then show ?thesis using that pr(7) d(5) [of q f r g] nv [of q f] nv [of r g] by simp
    qed
  qed
qed

lemma bm_inv_new: "bm_inv (new_BufferManager page_size page_count disk)"
  by (simp add: bm_inv_def new_BufferManager_def)

lemma inv_after_unfix:
  assumes inv: "bm_inv bm"
  shows "bm_inv (unfix_page bm p d)"
proof (rule bm_invI)
  note d = bm_invD [OF inv]
  let ?bm' = "unfix_page bm p d"
  have pr: "fifoList ?bm' = fifoList bm" "lruList ?bm' = lruList bm" "heap ?bm' = heap bm"
    "pageCount ?bm' = pageCount bm"
    "\<And>q. pageTable ?bm' q = (if q = p then map_option (\<lambda>f. f\<lparr>isDirty := isDirty f \<or> d, pageLatch := unlock (pageLatch f)\<rparr>) (pageTable bm p) else pageTable bm q)"
    by (simp_all add: unfix_page_def)
  show "distinct (fifoList ?bm' @ lruList ?bm')" using d(1) pr by simp
  show "length (fifoList ?bm') + length (lruList ?bm') \<le> pageCount ?bm'" using d(2) pr by simp
  show "pageTable ?bm' q \<noteq> None" if "q \<in> set (fifoList ?bm' @ lruList ?bm')" for q
    using d(3) [of q] that pr by auto
  have old: "\<exists>f0. pageTable bm q = Some f0 \<and> pid f = pid f0 \<and> data f = data f0
               \<and> pageState f = pageState f0 \<and> (pageLatch f0 = Unlocked \<longrightarrow> pageLatch f = Unlocked)"
    if "pageTable ?bm' q = Some f" for q f
    using that unfolding pr(5) by (cases "q = p") (auto simp: unlock_def)
  show "frame_ok ?bm' q f" if "pageTable ?bm' q = Some f" for q f
  proof -
    from old [OF that] obtain f0 where f0: "pageTable bm q = Some f0" "pid f = pid f0" "data f = data f0"
      "pageState f = pageState f0" "pageLatch f0 = Unlocked \<longrightarrow> pageLatch f = Unlocked" by blast
    show ?thesis using d(4) [OF f0(1)] f0(2-) pr(1-4)
      by (simp add: frame_ok_def resident_def)
  qed
  show "data f \<noteq> data g"
    if "pageTable ?bm' q = Some f" "pageTable ?bm' r = Some g" "q \<noteq> r" "resident f" "resident g"
    for q r f g
  proof -
    from old [OF that(1)] obtain f0 where f0: "pageTable bm q = Some f0" "data f = data f0"
      "pageState f = pageState f0" by blast
    from old [OF that(2)] obtain g0 where g0: "pageTable bm r = Some g0" "data g = data g0"
      "pageState g = pageState g0" by blast
    show ?thesis using d(5) [OF f0(1) g0(1) that(3)] that(4,5) f0 g0 by (simp add: resident_def)
  qed
qed

lemma inv_after_touch:
  assumes inv: "bm_inv bm" and f: "pageTable bm p = Some f" and res: "resident f"
    and pr: "heap bm' = heap bm" "pageCount bm' = pageCount bm"
      "\<forall>q. q \<noteq> p \<longrightarrow> pageTable bm' q = pageTable bm q"
      "pageTable bm' p = Some (f\<lparr>pageLatch := l, pageState := IN_LRU\<rparr>)"
      "fifoList bm' = remove1 p (fifoList bm)" "lruList bm' = remove1 p (lruList bm) @ [p]"
  shows "bm_inv bm'"
proof (rule bm_invI)
  note d = bm_invD [OF inv]
  have okp: "frame_ok bm p f" using d(4) f .
  have mem: "p \<in> set (fifoList bm @ lruList bm)"
    using okp res by (auto simp: frame_ok_def resident_def)
  have dist: "distinct (fifoList bm)" "distinct (lruList bm)" "set (fifoList bm) \<inter> set (lruList bm) = {}"
    using d(1) by auto
  have sets: "set (fifoList bm') = set (fifoList bm) - {p}" "set (lruList bm') = set (lruList bm) \<union> {p}"
    using pr(5,6) dist by (auto simp: set_remove1_eq)
  have len: "length (remove1 p (fifoList bm)) + length (remove1 p (lruList bm)) + 1
             = length (fifoList bm) + length (lruList bm)"
    using mem dist by (auto simp: length_remove1 remove1_idem) (metis One_nat_def Suc_pred length_pos_if_in_set)+
  show "distinct (fifoList bm' @ lruList bm')"
    using dist pr(5,6) by (auto simp: distinct_remove1 dest: notin_set_remove1)
  show "length (fifoList bm') + length (lruList bm') \<le> pageCount bm'"
    using d(2) len pr by simp
  show "pageTable bm' q \<noteq> None" if qm: "q \<in> set (fifoList bm' @ lruList bm')" for q
  proof (cases "q = p")
    case True
    then show ?thesis using pr(4) by simp
  next
    case False
    then have "q \<in> set (fifoList bm @ lruList bm)" using qm sets by auto
    then show ?thesis using d(3) [of q] False pr(3) by simp
  qed
  show "frame_ok bm' q g" if "pageTable bm' q = Some g" for q g
  proof (cases "q = p")
    case True
    then show ?thesis using that pr okp sets res
      by (auto simp: frame_ok_def resident_def)
  next
    case False
    then have "frame_ok bm q g" using that pr(3) d(4) by simp
    then show ?thesis using False pr(1) sets by (auto simp: frame_ok_def)
  qed
  show "data g \<noteq> data h"
    if "pageTable bm' q = Some g" "pageTable bm' r = Some h" "q \<noteq> r" "resident g" "resident h"
    for q r g h
  proof -
    have old: "\<exists>g0. pageTable bm s = Some g0 \<and> data k = data g0 \<and> resident g0"
      if "pageTable bm' s = Some k" "resident k" for s k
      using that pr(3,4) f res by (cases "s = p") auto
    from old [OF that(1,4)] obtain g0 where g0: "pageTable bm q = Some g0" "data g = data g0" "resident g0" by blast
    from old [OF that(2,5)] obtain h0 where h0: "pageTable bm r = Some h0" "data h = data h0" "resident h0" by blast
    show ?thesis using d(5) [OF g0(1) h0(1) that(3) g0(3) h0(3)] g0(2) h0(2) by simp
  qed
qed

text \<open>
  What one operation does to the frames: \<open>frames_step bm bm' L\<close> holds when every frame of
  \<open>bm\<close> is still a frame of \<open>bm'\<close>, the pages in \<open>L\<close> are resident in \<open>bm'\<close>, and every
  other frame of \<open>bm'\<close> has the data pointer it had in \<open>bm\<close> (null for a frame that is new).
\<close>

definition frames_step :: "'p BufferManager \<Rightarrow> 'p BufferManager \<Rightarrow> nat set \<Rightarrow> bool" where
  "frames_step bm bm' L \<longleftrightarrow>
     (\<forall>q. (pageTable bm q \<noteq> None \<longrightarrow> pageTable bm' q \<noteq> None)
        \<and> (q \<in> L \<longrightarrow> pageTable bm' q \<noteq> None)
        \<and> (\<forall>f'. pageTable bm' q = Some f' \<longrightarrow>
              (if q \<in> L then resident f' else data f' = data (frame_of bm q))))"

lemma frames_stepI:
  assumes "\<And>q. q \<notin> L \<Longrightarrow> pageTable bm' q = pageTable bm q
              \<or> (\<exists>f'. pageTable bm' q = Some f' \<and> data f' = data (frame_of bm q))"
    and "\<And>q. q \<in> L \<Longrightarrow> \<exists>f'. pageTable bm' q = Some f' \<and> resident f'"
  shows "frames_step bm bm' L"
  unfolding frames_step_def
proof (intro allI conjI impI)
  fix q
  show "pageTable bm' q \<noteq> None" if "pageTable bm q \<noteq> None"
    using assms(1) [of q] assms(2) [of q] that by (cases "q \<in> L") auto
  show "pageTable bm' q \<noteq> None" if "q \<in> L" using assms(2) [OF that] by auto
  show "if q \<in> L then resident f' else data f' = data (frame_of bm q)" if "pageTable bm' q = Some f'" for f'
  proof (cases "q \<in> L")
    case True
    then show ?thesis using assms(2) [OF True] that by auto
  next
    case False
    from assms(1) [OF False] have "data f' = data (frame_of bm q)"
    proof
      assume "pageTable bm' q = pageTable bm q"
      then have "pageTable bm q = Some f'" using that by simp
      then show ?thesis by (simp add: frame_of_def)
    next
      assume "\<exists>f'. pageTable bm' q = Some f' \<and> data f' = data (frame_of bm q)"
      then show ?thesis using that by auto
    qed
    then show ?thesis using False by simp
  qed
qed

text \<open>The pages that an operation loads.\<close>

definition loads :: "'p BufferManager \<Rightarrow> bm_op \<Rightarrow> nat set" where
  "loads bm op =
     (case op of
        Fix p e a \<Rightarrow> (case fix_page bm p e a of Fixed s \<Rightarrow> if not_resident bm p then {p} else {} | _ \<Rightarrow> {})
      | Unfix p d \<Rightarrow> {})"

fun loaded_pages :: "'p BufferManager \<Rightarrow> bm_op list \<Rightarrow> nat set" where
  "loaded_pages bm [] = {}"
| "loaded_pages bm (op # ops) =
     (case step bm op of None \<Rightarrow> {} | Some bm' \<Rightarrow> loads bm op \<union> loaded_pages bm' ops)"

lemma fix_page_resident:
  assumes inv: "bm_inv bm" and f: "pageTable bm p = Some f" and res: "resident f"
    and r: "state_after (fix_page bm p e a) = Some bm'"
  shows "bm_inv bm'" "frames_step bm bm' {}"
proof -
  note d = bm_invD [OF inv]
  have okp: "frame_ok bm p f" using d(4) f .
  have g: "getBufferFrame bm p = bm" using f by (simp add: getBufferFrame_def)
  obtain l where l: "(if e then lock (pageLatch f) else lock_shared (pageLatch f)) = Some l"
    using r f g by (cases "if e then lock (pageLatch f) else lock_shared (pageLatch f)")
      (simp_all add: fix_page_def state_after_def Let_def)
  have "bm_inv bm' \<and> (\<forall>q. q \<noteq> p \<longrightarrow> pageTable bm' q = pageTable bm q)
        \<and> pageTable bm' p = Some (f\<lparr>pageLatch := l, pageState := IN_LRU\<rparr>)"
  proof (cases "pageState f = IN_FIFO")
    case True
    then have pin: "p \<in> set (fifoList bm)" "p \<notin> set (lruList bm)"
      using okp by (auto simp: frame_ok_def)
    have "fix_page bm p e a = Fixed (update_frame ((update_frame bm p (\<lambda>f. f\<lparr>pageLatch := l\<rparr>))
              \<lparr>fifoList := remove1 p (fifoList bm), lruList := lruList bm @ [p]\<rparr>) p (\<lambda>f. f\<lparr>pageState := IN_LRU\<rparr>))"
      using f g l True pin by (simp add: fix_page_def Let_def)
    then have bm': "bm' = update_frame ((update_frame bm p (\<lambda>f. f\<lparr>pageLatch := l\<rparr>))
              \<lparr>fifoList := remove1 p (fifoList bm), lruList := lruList bm @ [p]\<rparr>) p (\<lambda>f. f\<lparr>pageState := IN_LRU\<rparr>)"
      using r by (simp add: state_after_def)
    have "bm_inv bm'"
      by (rule inv_after_touch [OF inv f res, of _ l]) (use f pin in \<open>simp_all add: bm' remove1_idem\<close>)
    then show ?thesis using f by (simp add: bm')
  next
    case False
    then have st: "pageState f = IN_LRU" using res by (simp add: resident_def)
    then have pin: "p \<in> set (lruList bm)" "p \<notin> set (fifoList bm)"
      using okp by (auto simp: frame_ok_def)
    have "fix_page bm p e a = Fixed ((update_frame bm p (\<lambda>f. f\<lparr>pageLatch := l\<rparr>))
              \<lparr>lruList := remove1 p (lruList bm) @ [p]\<rparr>)"
      using f g l st pin by (simp add: fix_page_def Let_def updateLru_def)
    then have bm': "bm' = (update_frame bm p (\<lambda>f. f\<lparr>pageLatch := l\<rparr>))
              \<lparr>lruList := remove1 p (lruList bm) @ [p]\<rparr>"
      using r by (simp add: state_after_def)
    have same: "f\<lparr>pageLatch := l\<rparr> = f\<lparr>pageLatch := l, pageState := IN_LRU\<rparr>" using st by simp
    have "bm_inv bm'"
      by (rule inv_after_touch [OF inv f res, of _ l]) (use f pin same in \<open>simp_all add: bm' remove1_idem\<close>)
    then show ?thesis using f same by (simp add: bm')
  qed
  then have i: "bm_inv bm'" and o: "\<And>q. q \<noteq> p \<Longrightarrow> pageTable bm' q = pageTable bm q"
    and s: "pageTable bm' p = Some (f\<lparr>pageLatch := l, pageState := IN_LRU\<rparr>)" by blast+
  show "bm_inv bm'" using i .
  show "frames_step bm bm' {}"
  proof (rule frames_stepI)
    fix q
    show "pageTable bm' q = pageTable bm q \<or> (\<exists>f'. pageTable bm' q = Some f' \<and> data f' = data (frame_of bm q))"
      using o [of q] s f by (cases "q = p") (auto simp: frame_of_def)
  qed simp
qed

text \<open>The outcomes of \<open>fix_page\<close> on a page that is not resident.\<close>

lemma fix_page_not_resident_inv:
  assumes inv: "bm_inv bm" and nr: "not_resident bm p"
    and r: "state_after (fix_page bm p e a) = Some bm'"
  shows "bm_inv bm'" "frames_step bm bm' (loads bm (Fix p e a))"
proof -
  have "bm_inv bm' \<and> frames_step bm bm' (loads bm (Fix p e a))"
  proof (cases "length (fifoList bm) + length (lruList bm) < pageCount bm")
    case True
    from fix_page_free [OF inv nr True, of e a]
    obtain b where b: "fix_page bm p e a = (if a \<noteq> 0 \<and> heap bm a = None then Fixed b else assertion_failed)"
      "fifoList b = fifoList bm @ [p]" "lruList b = lruList bm"
      "heap b = (heap bm)(a \<mapsto> segments bm p)" "pageCount b = pageCount bm"
      "\<forall>q. q \<noteq> p \<longrightarrow> pageTable b q = pageTable bm q"
      "pageTable b p = Some ((frame_of bm p)\<lparr>pageLatch := mode_latch e, pageState := IN_FIFO, data := a\<rparr>)"
      by (elim exE conjE) (rule that)
    have fresh: "a \<noteq> 0" "heap bm a = None" and eq: "b = bm'" and fx: "fix_page bm p e a = Fixed bm'"
      using r b(1) by (auto simp: state_after_def split: if_splits)
    have i: "bm_inv bm'"
      using inv_after_free_load [OF inv nr True fresh b(2,3,4,5,6,7)] eq by simp
    have ld: "loads bm (Fix p e a) = {p}" using fx nr by (simp add: loads_def)
    have "frames_step bm bm' {p}"
      using b(6,7) eq by (intro frames_stepI) (auto simp: resident_def)
    then show ?thesis using i ld by simp
  next
    case full: False
    show ?thesis
    proof (cases "\<exists>q\<in>set (fifoList bm @ lruList bm). evictable bm q")
      case True
      from split_list_first_prop [OF True]
      obtain as v bs where sp: "fifoList bm @ lruList bm = as @ v # bs" "evictable bm v"
        "\<forall>q\<in>set as. \<not> evictable bm q" by blast
      have mem: "v \<in> set (fifoList bm @ lruList bm)" unfolding sp(1) by simp
      from fix_page_evict [OF inv nr full sp(1,3,2), of e a]
      obtain b fv where b: "fix_page bm p e a
              = (if a \<noteq> 0 \<and> (a = data fv \<or> heap bm a = None) then Fixed b else assertion_failed)"
        "pageTable bm v = Some fv" "v \<noteq> p"
        "fifoList b = remove1 v (fifoList bm) @ [p]" "lruList b = remove1 v (lruList bm)"
        "pageCount b = pageCount bm"
        "heap b = (heap bm)(data fv := None, a \<mapsto> segments b p)"
        "\<forall>q. q \<noteq> v \<and> q \<noteq> p \<longrightarrow> pageTable b q = pageTable bm q"
        "pageTable b p = Some ((frame_of bm p)\<lparr>pageLatch := mode_latch e, pageState := IN_FIFO, data := a\<rparr>)"
        "\<exists>f'. pageTable b v = Some f' \<and> pageState f' = NOT_LOADED \<and> data f' = data fv
                  \<and> pid f' = v \<and> pageLatch f' = Unlocked"
        by (elim exE conjE) (rule that, (assumption | blast)+)
      have fresh: "a \<noteq> 0" "a = data fv \<or> heap bm a = None" and eq: "b = bm'"
        and fx: "fix_page bm p e a = Fixed bm'"
        using r b(1) by (auto simp: state_after_def split: if_splits)
      have i: "bm_inv bm'"
        using inv_after_evict_load [OF inv nr mem fresh b(2,3,4,5,6,7,8,9,10)] eq by simp
      have ld: "loads bm (Fix p e a) = {p}" using fx nr by (simp add: loads_def)
      have "frames_step bm bm' {p}"
      proof (rule frames_stepI)
        fix q assume "q \<notin> {p}"
        then show "pageTable bm' q = pageTable bm q \<or> (\<exists>f'. pageTable bm' q = Some f' \<and> data f' = data (frame_of bm q))"
          using b(2,8,10) eq by (cases "q = v") (auto simp: frame_of_def)
      next
        fix q assume "q \<in> {p}"
        then show "\<exists>f'. pageTable bm' q = Some f' \<and> resident f'"
          using b(9) eq by (auto simp: resident_def)
      qed
      then show ?thesis using i ld by simp
    next
      case False
      then have none: "\<forall>q\<in>set (fifoList bm @ lruList bm). \<not> evictable bm q" by blast
      from fix_page_throw [OF inv nr full none, of e a]
      obtain b where b: "fix_page bm p e a = buffer_full_error b"
        "fifoList b = fifoList bm" "lruList b = lruList bm" "heap b = heap bm"
        "pageCount b = pageCount bm"
        "\<forall>q. q \<noteq> p \<longrightarrow> pageTable b q = pageTable bm q"
        "pageTable b p = Some (frame_of bm p)"
        by (elim exE conjE) (rule that)
      have eq: "b = bm'" using r b(1) by (simp add: state_after_def)
      have i: "bm_inv bm'"
        using inv_after_throw [OF inv nr b(2,3,4,5,6,7)] eq by simp
      have ld: "loads bm (Fix p e a) = {}" using b(1) by (simp add: loads_def)
      have "frames_step bm bm' {}"
      proof (rule frames_stepI)
        fix q
        show "pageTable bm' q = pageTable bm q \<or> (\<exists>f'. pageTable bm' q = Some f' \<and> data f' = data (frame_of bm q))"
          using b(6,7) eq by (cases "q = p") auto
      qed simp
      then show ?thesis using i ld by simp
    qed
  qed
  then show "bm_inv bm'" "frames_step bm bm' (loads bm (Fix p e a))" by blast+
qed

lemma fix_page_inv:
  assumes inv: "bm_inv bm" and r: "state_after (fix_page bm p e a) = Some bm'"
  shows "bm_inv bm'" "frames_step bm bm' (loads bm (Fix p e a))"
proof -
  have "bm_inv bm' \<and> frames_step bm bm' (loads bm (Fix p e a))"
  proof (cases "not_resident bm p")
    case True
    then show ?thesis using fix_page_not_resident_inv [OF inv _ r] by blast
  next
    case False
    then obtain f where f: "pageTable bm p = Some f" "pageState f \<noteq> NOT_LOADED"
      by (auto simp: not_resident_def split: option.splits)
    have "frame_ok bm p f" using bm_invD(4) [OF inv f(1)] .
    then have "resident f" using f(2) by (cases "pageState f") (auto simp: frame_ok_def resident_def)
    moreover have "loads bm (Fix p e a) = {}" using False by (simp add: loads_def split: fix_result.splits)
    ultimately show ?thesis using fix_page_resident [OF inv f(1) _ r] by simp
  qed
  then show "bm_inv bm'" "frames_step bm bm' (loads bm (Fix p e a))" by blast+
qed

lemma unfix_frames_step: "frames_step bm (unfix_page bm p d) {}"
proof (rule frames_stepI)
  fix q
  show "pageTable (unfix_page bm p d) q = pageTable bm q
      \<or> (\<exists>f'. pageTable (unfix_page bm p d) q = Some f' \<and> data f' = data (frame_of bm q))"
    by (cases "pageTable bm p") (auto simp: unfix_page_def frame_of_def)
qed simp

lemma step_inv:
  assumes "bm_inv bm" and "step bm op = Some bm'"
  shows "bm_inv bm'" "frames_step bm bm' (loads bm op)"
proof -
  have "bm_inv bm' \<and> frames_step bm bm' (loads bm op)"
  proof (cases op)
    case (Fix p e a)
    then show ?thesis using assms fix_page_inv [of bm p e a bm'] by (simp add: step_def)
  next
    case (Unfix p d)
    then show ?thesis
      using assms inv_after_unfix [of bm p d] unfix_frames_step [of bm p d]
      by (auto simp: step_def loads_def)
  qed
  then show "bm_inv bm'" "frames_step bm bm' (loads bm op)" by blast+
qed

lemma steps_inv: "bm_inv bm \<Longrightarrow> steps bm ops = Some bm' \<Longrightarrow> bm_inv bm'"
  by (induction ops arbitrary: bm) (auto split: option.splits dest: step_inv(1))

lemma reachable_inv: "reachable bm \<Longrightarrow> bm_inv bm"
  unfolding reachable_def using steps_inv [OF bm_inv_new] by blast

text \<open>
  Along a run, the data pointer of a frame is not null exactly when its page is one of
  those loaded so far (\<open>L\<close> are the pages loaded before the run).
\<close>

definition data_rel :: "'p BufferManager \<Rightarrow> nat set \<Rightarrow> bool" where
  "data_rel bm L \<longleftrightarrow>
     (\<forall>q \<in> L. pageTable bm q \<noteq> None) \<and> (\<forall>q f. pageTable bm q = Some f \<longrightarrow> (data f \<noteq> 0 \<longleftrightarrow> q \<in> L))"

lemma data_rel_step:
  assumes inv: "bm_inv bm" and rel: "data_rel bm L" and st: "step bm op = Some bm'"
  shows "data_rel bm' (L \<union> loads bm op)"
proof -
  note s = step_inv [OF inv st]
  have fs: "pageTable bm q \<noteq> None \<Longrightarrow> pageTable bm' q \<noteq> None"
    "q \<in> loads bm op \<Longrightarrow> pageTable bm' q \<noteq> None"
    "pageTable bm' q = Some f' \<Longrightarrow> q \<in> loads bm op \<Longrightarrow> resident f'"
    "pageTable bm' q = Some f' \<Longrightarrow> q \<notin> loads bm op \<Longrightarrow> data f' = data (frame_of bm q)" for q f'
    using s(2) unfolding frames_step_def by (auto split: if_splits)
  have old: "data (frame_of bm q) \<noteq> 0 \<longleftrightarrow> q \<in> L" for q
    using rel unfolding data_rel_def frame_of_def
    by (cases "pageTable bm q") (auto simp: new_BufferFrame_def)
  show ?thesis
    unfolding data_rel_def
  proof (intro conjI ballI allI impI)
    fix q assume "q \<in> L \<union> loads bm op"
    then show "pageTable bm' q \<noteq> None" using fs(1,2) [of q] rel unfolding data_rel_def by auto
  next
    fix q f' assume f': "pageTable bm' q = Some f'"
    show "data f' \<noteq> 0 \<longleftrightarrow> q \<in> L \<union> loads bm op"
    proof (cases "q \<in> loads bm op")
      case True
      have "frame_ok bm' q f'" using bm_invD(4) [OF s(1) f'] .
      then show ?thesis using fs(3) [OF f' True] True by (simp add: frame_ok_def)
    next
      case False
      then show ?thesis using fs(4) [OF f' False] old [of q] by simp
    qed
  qed
qed

lemma data_rel_steps:
  "bm_inv bm \<Longrightarrow> data_rel bm L \<Longrightarrow> steps bm ops = Some bm' \<Longrightarrow> data_rel bm' (L \<union> loaded_pages bm ops)"
proof (induction ops arbitrary: bm L)
  case Nil
  then show ?case by simp
next
  case (Cons op ops)
  from Cons.prems(3) obtain b where b: "step bm op = Some b" "steps b ops = Some bm'"
    by (auto split: option.splits)
  have "data_rel bm' (L \<union> loads bm op \<union> loaded_pages b ops)"
    using Cons.IH [OF step_inv(1) [OF Cons.prems(1) b(1)] data_rel_step [OF Cons.prems(1,2) b(1)] b(2)] .
  then show ?case using b(1) by (simp add: Un_assoc)
qed

lemma data_rel_new: "data_rel (new_BufferManager page_size page_count disk) {}"
  by (simp add: data_rel_def new_BufferManager_def)

text \<open>Observations of a run, used in the concrete runs below.\<close>

definition threw :: "'a fix_result \<Rightarrow> bool" where
  "threw r = (case r of buffer_full_error s \<Rightarrow> True | _ \<Rightarrow> False)"

definition observe :: "nat \<Rightarrow> 'p BufferManager option \<Rightarrow> (PageState \<times> Latch \<times> nat) option" where
  "observe p r =
     (case r of None \<Rightarrow> None
      | Some s \<Rightarrow> (case pageTable s p of None \<Rightarrow> None | Some f \<Rightarrow> Some (pageState f, pageLatch f, data f)))"

definition run_ex :: "nat \<Rightarrow> bm_op list \<Rightarrow> nat BufferManager" where
  "run_ex page_count ops =
     (case steps (new_BufferManager 1024 page_count zero_disk) ops of
        Some s \<Rightarrow> s | None \<Rightarrow> new_BufferManager 1024 page_count zero_disk)"

text \<open>
  C7 (amended).  Let the page \<open>page_id\<close> be not resident (no frame yet, or a frame that
  is not loaded), in a state that satisfies the invariant \<open>bm_inv\<close> (every reachable
  state does, \<open>reachable_inv\<close>).  Then \<open>fix_page\<close> throws \<^verbatim>\<open>buffer_full_error\<close> exactly when
  the two lists together hold \<open>pageCount\<close> frames and no frame of them can be try-locked.
  When it throws, the lists, the buffers, the segment files and every other frame are as
  before the call, and the page latch that the call took on the requested frame is
  released again.  Otherwise the fix succeeds, given that \<^verbatim>\<open>malloc\<close> returns a buffer:
  when the lists hold fewer than \<open>pageCount\<close> frames the page is loaded and appended to
  the FIFO list and no frame is evicted; when they are full, the first frame that can be
  try-locked, scanning the FIFO list front to back and then the LRU list, is evicted
  (written to its segment first if dirty) and the page is loaded and appended to the FIFO
  list, latched in the requested mode.  (The buffer that \<^verbatim>\<open>malloc\<close> returns may be the one
  that the eviction has just freed.)  A frame in state \<open>LOADING\<close> exists only while another
  thread is loading it, which the model of one thread leaves out.
\<close>

theorem fix_page_not_resident:
  assumes "bm_inv bm" and "not_resident bm page_id"
  shows "((\<exists>bm'. fix_page bm page_id exclusive a = buffer_full_error bm') \<longleftrightarrow>
            (length (fifoList bm) + length (lruList bm) = pageCount bm
             \<and> (\<forall>q\<in>set (fifoList bm @ lruList bm). \<not> evictable bm q)))
       \<and> (\<forall>bm'. fix_page bm page_id exclusive a = buffer_full_error bm' \<longrightarrow>
            fifoList bm' = fifoList bm \<and> lruList bm' = lruList bm \<and> segments bm' = segments bm
            \<and> heap bm' = heap bm
            \<and> (\<forall>q. q \<noteq> page_id \<longrightarrow> pageTable bm' q = pageTable bm q)
            \<and> map_option pageState (pageTable bm' page_id) = Some NOT_LOADED
            \<and> map_option pageLatch (pageTable bm' page_id) = Some Unlocked)
       \<and> (length (fifoList bm) + length (lruList bm) < pageCount bm \<and> a \<noteq> 0 \<and> heap bm a = None \<longrightarrow>
            (\<exists>bm'. fix_page bm page_id exclusive a = Fixed bm'
               \<and> fifoList bm' = fifoList bm @ [page_id] \<and> lruList bm' = lruList bm
               \<and> segments bm' = segments bm
               \<and> (\<forall>q. q \<noteq> page_id \<longrightarrow> pageTable bm' q = pageTable bm q)
               \<and> map_option pageState (pageTable bm' page_id) = Some IN_FIFO
               \<and> map_option pageLatch (pageTable bm' page_id) = Some (mode_latch exclusive)))
       \<and> (\<forall>as v bs fv. length (fifoList bm) + length (lruList bm) = pageCount bm
             \<and> fifoList bm @ lruList bm = as @ v # bs
             \<and> (\<forall>q\<in>set as. \<not> evictable bm q) \<and> evictable bm v
             \<and> pageTable bm v = Some fv \<and> a \<noteq> 0 \<and> (a = data fv \<or> heap bm a = None) \<longrightarrow>
            (\<exists>bm'. fix_page bm page_id exclusive a = Fixed bm'
               \<and> fifoList bm' = remove1 v (fifoList bm) @ [page_id]
               \<and> lruList bm' = remove1 v (lruList bm)
               \<and> map_option pageState (pageTable bm' v) = Some NOT_LOADED
               \<and> (isDirty fv \<longrightarrow> Some (segments bm' v) = heap bm (data fv))
               \<and> (\<not> isDirty fv \<longrightarrow> segments bm' = segments bm)
               \<and> (\<forall>q. q \<noteq> page_id \<and> q \<noteq> v \<longrightarrow> pageTable bm' q = pageTable bm q)
               \<and> map_option pageState (pageTable bm' page_id) = Some IN_FIFO
               \<and> map_option pageLatch (pageTable bm' page_id) = Some (mode_latch exclusive)))"
proof -
  note inv = assms(1) and nr = assms(2)
  note fr = not_resident_frame [OF inv nr]
  have le: "length (fifoList bm) + length (lruList bm) \<le> pageCount bm" using bm_invD(2) [OF inv] .
  have free_nt: "\<not> (\<exists>bm'. fix_page bm page_id exclusive a = buffer_full_error bm')"
    if lt: "length (fifoList bm) + length (lruList bm) < pageCount bm"
    using fix_page_free [OF inv nr lt, of exclusive a] by (auto split: if_splits)
  have free: "length (fifoList bm) + length (lruList bm) < pageCount bm \<and> a \<noteq> 0 \<and> heap bm a = None \<longrightarrow>
            (\<exists>bm'. fix_page bm page_id exclusive a = Fixed bm'
               \<and> fifoList bm' = fifoList bm @ [page_id] \<and> lruList bm' = lruList bm
               \<and> segments bm' = segments bm
               \<and> (\<forall>q. q \<noteq> page_id \<longrightarrow> pageTable bm' q = pageTable bm q)
               \<and> map_option pageState (pageTable bm' page_id) = Some IN_FIFO
               \<and> map_option pageLatch (pageTable bm' page_id) = Some (mode_latch exclusive))"
  proof
    assume h: "length (fifoList bm) + length (lruList bm) < pageCount bm \<and> a \<noteq> 0 \<and> heap bm a = None"
    then have lt: "length (fifoList bm) + length (lruList bm) < pageCount bm" by simp
    show "\<exists>bm'. fix_page bm page_id exclusive a = Fixed bm'
               \<and> fifoList bm' = fifoList bm @ [page_id] \<and> lruList bm' = lruList bm
               \<and> segments bm' = segments bm
               \<and> (\<forall>q. q \<noteq> page_id \<longrightarrow> pageTable bm' q = pageTable bm q)
               \<and> map_option pageState (pageTable bm' page_id) = Some IN_FIFO
               \<and> map_option pageLatch (pageTable bm' page_id) = Some (mode_latch exclusive)"
      using fix_page_free [OF inv nr lt, of exclusive a] h
      apply (elim exE conjE)
      apply (intro exI conjI)
            apply simp
           apply simp_all
      done
  qed
  have evict_cases: "\<exists>bm' fv. fix_page bm page_id exclusive a
              = (if a \<noteq> 0 \<and> (a = data fv \<or> heap bm a = None) then Fixed bm' else assertion_failed)
               \<and> pageTable bm v = Some fv
               \<and> fifoList bm' = remove1 v (fifoList bm) @ [page_id]
               \<and> lruList bm' = remove1 v (lruList bm)
               \<and> map_option pageState (pageTable bm' v) = Some NOT_LOADED
               \<and> (isDirty fv \<longrightarrow> Some (segments bm' v) = heap bm (data fv))
               \<and> (\<not> isDirty fv \<longrightarrow> segments bm' = segments bm)
               \<and> (\<forall>q. q \<noteq> page_id \<and> q \<noteq> v \<longrightarrow> pageTable bm' q = pageTable bm q)
               \<and> map_option pageState (pageTable bm' page_id) = Some IN_FIFO
               \<and> map_option pageLatch (pageTable bm' page_id) = Some (mode_latch exclusive)"
    if full: "length (fifoList bm) + length (lruList bm) = pageCount bm"
      and sp: "fifoList bm @ lruList bm = as @ v # bs" "\<forall>q\<in>set as. \<not> evictable bm q" "evictable bm v"
    for as v bs
  proof -
    have nlt: "\<not> length (fifoList bm) + length (lruList bm) < pageCount bm" using full by simp
    have mem: "v \<in> set (fifoList bm @ lruList bm)" unfolding sp(1) by simp
    from listed_frame [OF inv mem] obtain fv0 where fv0: "pageTable bm v = Some fv0"
      "heap bm (data fv0) \<noteq> None" by blast
    then obtain c where c: "heap bm (data fv0) = Some c" by blast
    from fix_page_evict [OF inv nr nlt sp, of exclusive a]
    obtain bm' fv where e: "fix_page bm page_id exclusive a
              = (if a \<noteq> 0 \<and> (a = data fv \<or> heap bm a = None) then Fixed bm' else assertion_failed)"
      "pageTable bm v = Some fv"
      "v \<noteq> page_id" "fifoList bm' = remove1 v (fifoList bm) @ [page_id]"
      "lruList bm' = remove1 v (lruList bm)"
      "\<forall>q. q \<noteq> v \<and> q \<noteq> page_id \<longrightarrow> pageTable bm' q = pageTable bm q"
      "pageTable bm' page_id = Some ((frame_of bm page_id)\<lparr>pageLatch := mode_latch exclusive, pageState := IN_FIFO, data := a\<rparr>)"
      "\<exists>f'. pageTable bm' v = Some f' \<and> pageState f' = NOT_LOADED \<and> data f' = data fv
                  \<and> pid f' = v \<and> pageLatch f' = Unlocked"
      "segments bm' = (if isDirty fv then (case heap bm (data fv) of
                                   Some c \<Rightarrow> (segments bm)(v := c) | None \<Rightarrow> segments bm)
                               else segments bm)"
      by (elim exE conjE) (rule that, (assumption | blast)+)
    have fveq: "fv = fv0" using e(2) fv0(1) by simp
    have seg1: "isDirty fv \<longrightarrow> Some (segments bm' v) = heap bm (data fv)"
      using e(9) c fveq by simp
    have seg2: "\<not> isDirty fv \<longrightarrow> segments bm' = segments bm" using e(9) by simp
    have st: "map_option pageState (pageTable bm' v) = Some NOT_LOADED" using e(8) by auto
    show ?thesis
      apply (rule exI [of _ bm'], rule exI [of _ fv])
      using e(1,2,4,5,6,7) seg1 seg2 st by (simp split del: if_split)
  qed
  have evict: "\<forall>as v bs fv. length (fifoList bm) + length (lruList bm) = pageCount bm
             \<and> fifoList bm @ lruList bm = as @ v # bs
             \<and> (\<forall>q\<in>set as. \<not> evictable bm q) \<and> evictable bm v
             \<and> pageTable bm v = Some fv \<and> a \<noteq> 0 \<and> (a = data fv \<or> heap bm a = None) \<longrightarrow>
            (\<exists>bm'. fix_page bm page_id exclusive a = Fixed bm'
               \<and> fifoList bm' = remove1 v (fifoList bm) @ [page_id]
               \<and> lruList bm' = remove1 v (lruList bm)
               \<and> map_option pageState (pageTable bm' v) = Some NOT_LOADED
               \<and> (isDirty fv \<longrightarrow> Some (segments bm' v) = heap bm (data fv))
               \<and> (\<not> isDirty fv \<longrightarrow> segments bm' = segments bm)
               \<and> (\<forall>q. q \<noteq> page_id \<and> q \<noteq> v \<longrightarrow> pageTable bm' q = pageTable bm q)
               \<and> map_option pageState (pageTable bm' page_id) = Some IN_FIFO
               \<and> map_option pageLatch (pageTable bm' page_id) = Some (mode_latch exclusive))"
  proof (intro allI impI)
    fix as v bs fv
    assume h: "length (fifoList bm) + length (lruList bm) = pageCount bm
             \<and> fifoList bm @ lruList bm = as @ v # bs
             \<and> (\<forall>q\<in>set as. \<not> evictable bm q) \<and> evictable bm v
             \<and> pageTable bm v = Some fv \<and> a \<noteq> 0 \<and> (a = data fv \<or> heap bm a = None)"
    from h have h1: "length (fifoList bm) + length (lruList bm) = pageCount bm"
      "fifoList bm @ lruList bm = as @ v # bs" "\<forall>q\<in>set as. \<not> evictable bm q" "evictable bm v"
      by simp_all
    from h have h2: "pageTable bm v = Some fv" "a \<noteq> 0" "a = data fv \<or> heap bm a = None"
      by simp_all
    from evict_cases [OF h1]
    obtain bm' fv' where e: "fix_page bm page_id exclusive a
              = (if a \<noteq> 0 \<and> (a = data fv' \<or> heap bm a = None) then Fixed bm' else assertion_failed)"
      "pageTable bm v = Some fv'"
      and rest: "fifoList bm' = remove1 v (fifoList bm) @ [page_id]
               \<and> lruList bm' = remove1 v (lruList bm)
               \<and> map_option pageState (pageTable bm' v) = Some NOT_LOADED
               \<and> (isDirty fv' \<longrightarrow> Some (segments bm' v) = heap bm (data fv'))
               \<and> (\<not> isDirty fv' \<longrightarrow> segments bm' = segments bm)
               \<and> (\<forall>q. q \<noteq> page_id \<and> q \<noteq> v \<longrightarrow> pageTable bm' q = pageTable bm q)
               \<and> map_option pageState (pageTable bm' page_id) = Some IN_FIFO
               \<and> map_option pageLatch (pageTable bm' page_id) = Some (mode_latch exclusive)"
      by (elim exE conjE) (rule that, (assumption | blast)+)
    have eq: "fv' = fv" using e(2) h2(1) by simp
    have "fix_page bm page_id exclusive a = Fixed bm'" using e(1) h2(2,3) eq by simp
    then show "\<exists>bm'. fix_page bm page_id exclusive a = Fixed bm'
               \<and> fifoList bm' = remove1 v (fifoList bm) @ [page_id]
               \<and> lruList bm' = remove1 v (lruList bm)
               \<and> map_option pageState (pageTable bm' v) = Some NOT_LOADED
               \<and> (isDirty fv \<longrightarrow> Some (segments bm' v) = heap bm (data fv))
               \<and> (\<not> isDirty fv \<longrightarrow> segments bm' = segments bm)
               \<and> (\<forall>q. q \<noteq> page_id \<and> q \<noteq> v \<longrightarrow> pageTable bm' q = pageTable bm q)
               \<and> map_option pageState (pageTable bm' page_id) = Some IN_FIFO
               \<and> map_option pageLatch (pageTable bm' page_id) = Some (mode_latch exclusive)"
      using rest unfolding eq by blast
  qed
  have thr: "(\<exists>bm'. fix_page bm page_id exclusive a = buffer_full_error bm') \<longleftrightarrow>
            (length (fifoList bm) + length (lruList bm) = pageCount bm
             \<and> (\<forall>q\<in>set (fifoList bm @ lruList bm). \<not> evictable bm q))"
  proof
    assume "length (fifoList bm) + length (lruList bm) = pageCount bm
             \<and> (\<forall>q\<in>set (fifoList bm @ lruList bm). \<not> evictable bm q)"
    then have "\<not> length (fifoList bm) + length (lruList bm) < pageCount bm"
      "\<forall>q\<in>set (fifoList bm @ lruList bm). \<not> evictable bm q" by simp_all
    from fix_page_throw [OF inv nr this, of exclusive a]
    show "\<exists>bm'. fix_page bm page_id exclusive a = buffer_full_error bm'" by blast
  next
    assume t: "\<exists>bm'. fix_page bm page_id exclusive a = buffer_full_error bm'"
    have nfree: "\<not> length (fifoList bm) + length (lruList bm) < pageCount bm"
      using free_nt t by blast
    then have full: "length (fifoList bm) + length (lruList bm) = pageCount bm" using le by simp
    have "\<not> (\<exists>q\<in>set (fifoList bm @ lruList bm). evictable bm q)"
    proof
      assume "\<exists>q\<in>set (fifoList bm @ lruList bm). evictable bm q"
      from split_list_first_prop [OF this]
      obtain as v bs where sp: "fifoList bm @ lruList bm = as @ v # bs" "evictable bm v"
        "\<forall>q\<in>set as. \<not> evictable bm q" by blast
      from evict_cases [OF full sp(1,3,2)] t show False by (auto split: if_splits)
    qed
    then show "length (fifoList bm) + length (lruList bm) = pageCount bm
             \<and> (\<forall>q\<in>set (fifoList bm @ lruList bm). \<not> evictable bm q)"
      using full by blast
  qed
  have post: "\<forall>bm'. fix_page bm page_id exclusive a = buffer_full_error bm' \<longrightarrow>
            fifoList bm' = fifoList bm \<and> lruList bm' = lruList bm \<and> segments bm' = segments bm
            \<and> heap bm' = heap bm
            \<and> (\<forall>q. q \<noteq> page_id \<longrightarrow> pageTable bm' q = pageTable bm q)
            \<and> map_option pageState (pageTable bm' page_id) = Some NOT_LOADED
            \<and> map_option pageLatch (pageTable bm' page_id) = Some Unlocked"
  proof (intro allI impI)
    fix bm' assume t: "fix_page bm page_id exclusive a = buffer_full_error bm'"
    then have c: "\<not> length (fifoList bm) + length (lruList bm) < pageCount bm"
      "\<forall>q\<in>set (fifoList bm @ lruList bm). \<not> evictable bm q" using thr by auto
    from fix_page_throw [OF inv nr c, of exclusive a] t fr(1,2)
    show "fifoList bm' = fifoList bm \<and> lruList bm' = lruList bm \<and> segments bm' = segments bm
            \<and> heap bm' = heap bm
            \<and> (\<forall>q. q \<noteq> page_id \<longrightarrow> pageTable bm' q = pageTable bm q)
            \<and> map_option pageState (pageTable bm' page_id) = Some NOT_LOADED
            \<and> map_option pageLatch (pageTable bm' page_id) = Some Unlocked"
      by auto
  qed
  show ?thesis using thr post free evict by blast
qed

text \<open>
  C8 (amended).  Take any run of \<open>fix_page\<close> and \<open>unfix_page\<close> calls (with the loads and
  evictions they do) from a new buffer manager, whatever buffers \<^verbatim>\<open>malloc\<close> returns, and
  any frame of the state it ends in.  A frame in state \<open>IN_FIFO\<close> or \<open>IN_LRU\<close> has a
  non-null data pointer; no frame is in state \<open>LOADING\<close>; and the data pointer of a frame
  is null exactly when its page has not been loaded in the run.  So a frame that is not
  loaded has a null data pointer only until its page is loaded for the first time:
  an operation that evicts the frame leaves its data pointer as it was, not null.
\<close>

theorem frame_data_pointer:
  assumes "steps (new_BufferManager page_size page_count disk) ops = Some bm"
    and "pageTable bm p = Some f"
  shows "(pageState f = IN_FIFO \<or> pageState f = IN_LRU \<longrightarrow> data f \<noteq> 0)
       \<and> pageState f \<noteq> LOADING
       \<and> (data f = 0 \<longleftrightarrow> p \<notin> loaded_pages (new_BufferManager page_size page_count disk) ops)
       \<and> (\<forall>op bm' f'. step bm op = Some bm' \<and> pageTable bm' p = Some f'
             \<and> (pageState f = IN_FIFO \<or> pageState f = IN_LRU) \<and> pageState f' = NOT_LOADED \<longrightarrow>
             data f' = data f \<and> data f' \<noteq> 0)"
proof -
  let ?new = "new_BufferManager page_size page_count disk"
  have inv: "bm_inv bm" using steps_inv [OF bm_inv_new assms(1)] .
  have ok: "frame_ok bm p f" using bm_invD(4) [OF inv assms(2)] .
  have rel: "data_rel bm (loaded_pages ?new ops)"
    using data_rel_steps [OF bm_inv_new data_rel_new assms(1)] by simp
  have 1: "pageState f = IN_FIFO \<or> pageState f = IN_LRU \<longrightarrow> data f \<noteq> 0"
    using ok by (simp add: frame_ok_def resident_def)
  have 2: "pageState f \<noteq> LOADING" using ok by (simp add: frame_ok_def)
  have 3: "data f = 0 \<longleftrightarrow> p \<notin> loaded_pages ?new ops"
    using rel assms(2) unfolding data_rel_def by blast
  have 4: "data f' = data f \<and> data f' \<noteq> 0"
    if h: "step bm op = Some bm'" "pageTable bm' p = Some f'"
      "pageState f = IN_FIFO \<or> pageState f = IN_LRU" "pageState f' = NOT_LOADED"
    for op bm' f'
  proof -
    have fs: "frames_step bm bm' (loads bm op)" using step_inv(2) [OF inv h(1)] .
    have "\<not> resident f'" using h(4) by (simp add: resident_def)
    then have "p \<notin> loads bm op" "data f' = data (frame_of bm p)"
      using fs h(2) unfolding frames_step_def by (auto split: if_splits)
    then have "data f' = data f" using assms(2) by (simp add: frame_of_def)
    then show ?thesis using 1 h(3) by simp
  qed
  show ?thesis using 1 2 3 4 by blast
qed

subsection \<open>Concrete runs\<close>

lemmas bm_eval = run_ex_def step_def state_after_def fix_page_def getBufferFrame_def
  new_BufferManager_def new_BufferFrame_def lock_def lock_shared_def try_lock_def unlock_def
  loadPage_def insertBufferFrame_def lockEvictableFrame_def evict_def flushPage_def
  update_frame_def malloc_def free_def remove_nth_def updateLru_def unfix_page_def
  observe_def threw_def zero_disk_def loads_def not_resident_def evictable_def
  get_fifo_list_def get_lru_list_def Let_def

lemma ex2:
  "steps (new_BufferManager 1024 1 zero_disk) [Fix 1 True 1, Unfix 1 True] = Some (run_ex 1 [Fix 1 True 1, Unfix 1 True])"
  "fifoList (run_ex 1 [Fix 1 True 1, Unfix 1 True]) = [1]" "lruList (run_ex 1 [Fix 1 True 1, Unfix 1 True]) = []"
  "pageCount (run_ex 1 [Fix 1 True 1, Unfix 1 True]) = 1"
  "pageTable (run_ex 1 [Fix 1 True 1, Unfix 1 True]) 2 = None"
  "pageTable (run_ex 1 [Fix 1 True 1, Unfix 1 True]) 1 = Some \<lparr>pid = 1, pageState = IN_FIFO, pageLatch = Unlocked, isDirty = True, data = 1\<rparr>"
  "heap (run_ex 1 [Fix 1 True 1, Unfix 1 True]) 1 = Some 0"
  by (simp_all add: bm_eval)

lemma ex3:
  "steps (new_BufferManager 1024 2 zero_disk) [Fix 1 True 1, Unfix 1 False]
     = Some (run_ex 2 [Fix 1 True 1, Unfix 1 False])"
  "not_resident (run_ex 2 [Fix 1 True 1, Unfix 1 False]) 2"
  "evictable (run_ex 2 [Fix 1 True 1, Unfix 1 False]) 1"
  "get_fifo_list (run_ex 2 [Fix 1 True 1, Unfix 1 False]) = [1]"
  "get_lru_list (run_ex 2 [Fix 1 True 1, Unfix 1 False]) = []"
  "\<not> threw (fix_page (run_ex 2 [Fix 1 True 1, Unfix 1 False]) 2 False 2)"
  "observe 1 (state_after (fix_page (run_ex 2 [Fix 1 True 1, Unfix 1 False]) 2 False 2))
     = Some (IN_FIFO, Unlocked, 1)"
  "observe 2 (state_after (fix_page (run_ex 2 [Fix 1 True 1, Unfix 1 False]) 2 False 2))
     = Some (IN_FIFO, Shared 1, 2)"
  "map_option get_fifo_list (state_after (fix_page (run_ex 2 [Fix 1 True 1, Unfix 1 False]) 2 False 2))
     = Some [1, 2]"
  by (simp_all add: bm_eval)

lemma reachable_run_ex:
  "steps (new_BufferManager 1024 page_count zero_disk) ops = Some (run_ex page_count ops)
   \<Longrightarrow> reachable (run_ex page_count ops)"
  unfolding reachable_def by blast

lemma ex5:
  "steps (new_BufferManager 1024 1 zero_disk) [Fix 1 True 1, Unfix 1 True, Fix 2 False 1]
     = Some (run_ex 1 [Fix 1 True 1, Unfix 1 True, Fix 2 False 1])"
  "pageTable (run_ex 1 [Fix 1 True 1, Unfix 1 True, Fix 2 False 1]) 2
     = Some \<lparr>pid = 2, pageState = IN_FIFO, pageLatch = Shared 1, isDirty = False, data = 1\<rparr>"
  "pageTable (run_ex 1 [Fix 1 True 1, Unfix 1 True, Fix 2 False 1]) 1
     = Some \<lparr>pid = 1, pageState = NOT_LOADED, pageLatch = Unlocked, isDirty = False, data = 1\<rparr>"
  "segments (run_ex 1 [Fix 1 True 1, Unfix 1 True, Fix 2 False 1]) 1 = 0"
  "loaded_pages (new_BufferManager 1024 1 zero_disk) [Fix 1 True 1, Unfix 1 True, Fix 2 False 1] = {1, 2}"
  by (simp_all add: bm_eval insert_commute)

theorem frame_data_pointer_witness:
  "steps (new_BufferManager 1024 1 zero_disk) [Fix 1 True 1, Unfix 1 True, Fix 2 False 1]
     = Some (run_ex 1 [Fix 1 True 1, Unfix 1 True, Fix 2 False 1])
   \<and> pageTable (run_ex 1 [Fix 1 True 1, Unfix 1 True, Fix 2 False 1]) 2
       = Some \<lparr>pid = 2, pageState = IN_FIFO, pageLatch = Shared 1, isDirty = False, data = 1\<rparr>
   \<and> 2 \<in> loaded_pages (new_BufferManager 1024 1 zero_disk) [Fix 1 True 1, Unfix 1 True, Fix 2 False 1]"
  using ex5(1,2) frame_data_pointer [OF ex5(1,2)] by simp

text \<open>
  After page 1 is evicted (one frame, page 1 fixed and unfixed, then page 2 fixed) its
  frame is \<open>NOT_LOADED\<close> and its data pointer is still the address 1 of the freed buffer,
  which \<^verbatim>\<open>malloc\<close> has handed out again for page 2.
\<close>

theorem evicted_frame_data_counterexample:
  "reachable (run_ex 1 [Fix 1 True 1, Unfix 1 True, Fix 2 False 1])
   \<and> pageTable (run_ex 1 [Fix 1 True 1, Unfix 1 True, Fix 2 False 1]) 1
       = Some \<lparr>pid = 1, pageState = NOT_LOADED, pageLatch = Unlocked, isDirty = False, data = 1\<rparr>
   \<and> data \<lparr>pid = 1, pageState = NOT_LOADED, pageLatch = Unlocked, isDirty = False, data = 1\<rparr> \<noteq> 0"
  using reachable_run_ex [OF ex5(1)] ex5(3) by simp

theorem fix_page_not_resident_witness:
  "bm_inv (run_ex 1 [Fix 1 True 1, Unfix 1 True]) \<and> not_resident (run_ex 1 [Fix 1 True 1, Unfix 1 True]) 2
   \<and> length (fifoList (run_ex 1 [Fix 1 True 1, Unfix 1 True])) + length (lruList (run_ex 1 [Fix 1 True 1, Unfix 1 True]))
       = pageCount (run_ex 1 [Fix 1 True 1, Unfix 1 True])
   \<and> fifoList (run_ex 1 [Fix 1 True 1, Unfix 1 True]) @ lruList (run_ex 1 [Fix 1 True 1, Unfix 1 True]) = [] @ 1 # []
   \<and> evictable (run_ex 1 [Fix 1 True 1, Unfix 1 True]) 1
   \<and> \<not> threw (fix_page (run_ex 1 [Fix 1 True 1, Unfix 1 True]) 2 False 1)
   \<and> observe 1 (state_after (fix_page (run_ex 1 [Fix 1 True 1, Unfix 1 True]) 2 False 1)) = Some (NOT_LOADED, Unlocked, 1)
   \<and> observe 2 (state_after (fix_page (run_ex 1 [Fix 1 True 1, Unfix 1 True]) 2 False 1)) = Some (IN_FIFO, Shared 1, 1)"
proof -
  let ?s = "run_ex 1 [Fix 1 True 1, Unfix 1 True]"
  let ?f = "\<lparr>pid = 1, pageState = IN_FIFO, pageLatch = Unlocked, isDirty = True, data = 1\<rparr>"
  have inv: "bm_inv ?s" using reachable_inv [OF reachable_run_ex [OF ex2(1)]] .
  have nr: "not_resident ?s 2" using ex2(5) by (simp add: not_resident_def)
  have ev: "evictable ?s 1" using ex2(6) by (simp add: evictable_def)
  have full: "length (fifoList ?s) + length (lruList ?s) = pageCount ?s" using ex2(2,3,4) by simp
  have sp: "fifoList ?s @ lruList ?s = [] @ 1 # []" using ex2(2,3) by simp
  have pre: "length (fifoList ?s) + length (lruList ?s) = pageCount ?s
             \<and> fifoList ?s @ lruList ?s = [] @ 1 # []
             \<and> (\<forall>q\<in>set []. \<not> evictable ?s q) \<and> evictable ?s 1
             \<and> pageTable ?s 1 = Some ?f \<and> (1 :: nat) \<noteq> 0 \<and> (1 = data ?f \<or> heap ?s 1 = None)"
    using full sp ev ex2(6) by simp
  have "\<forall>as v bs fv. length (fifoList ?s) + length (lruList ?s) = pageCount ?s
             \<and> fifoList ?s @ lruList ?s = as @ v # bs
             \<and> (\<forall>q\<in>set as. \<not> evictable ?s q) \<and> evictable ?s v
             \<and> pageTable ?s v = Some fv \<and> (1 :: nat) \<noteq> 0 \<and> (1 = data fv \<or> heap ?s 1 = None) \<longrightarrow>
            (\<exists>bm'. fix_page ?s 2 False 1 = Fixed bm'
               \<and> fifoList bm' = remove1 v (fifoList ?s) @ [2]
               \<and> lruList bm' = remove1 v (lruList ?s)
               \<and> map_option pageState (pageTable bm' v) = Some NOT_LOADED
               \<and> (isDirty fv \<longrightarrow> Some (segments bm' v) = heap ?s (data fv))
               \<and> (\<not> isDirty fv \<longrightarrow> segments bm' = segments ?s)
               \<and> (\<forall>q. q \<noteq> 2 \<and> q \<noteq> v \<longrightarrow> pageTable bm' q = pageTable ?s q)
               \<and> map_option pageState (pageTable bm' 2) = Some IN_FIFO
               \<and> map_option pageLatch (pageTable bm' 2) = Some (mode_latch False))"
    using fix_page_not_resident [OF inv nr, of False 1] by (elim conjE)
  from this [rule_format, OF pre]
  have "\<exists>bm'. fix_page ?s 2 False 1 = Fixed bm'
          \<and> map_option pageState (pageTable bm' 1) = Some NOT_LOADED
          \<and> map_option pageLatch (pageTable bm' 2) = Some (mode_latch False)"
    by (elim exE conjE) (intro exI conjI, assumption+)
  then have nt: "\<not> threw (fix_page ?s 2 False 1)" by (auto simp: threw_def)
  have o: "observe 1 (state_after (fix_page ?s 2 False 1)) = Some (NOT_LOADED, Unlocked, 1)"
    "observe 2 (state_after (fix_page ?s 2 False 1)) = Some (IN_FIFO, Shared 1, 1)"
    by (simp_all add: bm_eval)
  show ?thesis using inv nr full sp ev nt o by simp
qed

text \<open>
  With room for two frames, page 1 fixed and unfixed again: page 2 is not resident, the
  lists are not full and the frame of page 1, the first of the scan, can be try-locked.
  \<open>fix_page\<close> for page 2 does not throw, and the frame of page 1 is not evicted: it stays
  in the FIFO list with its buffer.
\<close>

theorem fix_page_no_eviction_counterexample:
  "steps (new_BufferManager 1024 2 zero_disk) [Fix 1 True 1, Unfix 1 False]
     = Some (run_ex 2 [Fix 1 True 1, Unfix 1 False])
   \<and> not_resident (run_ex 2 [Fix 1 True 1, Unfix 1 False]) 2
   \<and> evictable (run_ex 2 [Fix 1 True 1, Unfix 1 False]) 1
   \<and> get_fifo_list (run_ex 2 [Fix 1 True 1, Unfix 1 False]) = [1]
   \<and> get_lru_list (run_ex 2 [Fix 1 True 1, Unfix 1 False]) = []
   \<and> \<not> threw (fix_page (run_ex 2 [Fix 1 True 1, Unfix 1 False]) 2 False 2)
   \<and> observe 1 (state_after (fix_page (run_ex 2 [Fix 1 True 1, Unfix 1 False]) 2 False 2))
       = Some (IN_FIFO, Unlocked, 1)
   \<and> map_option get_fifo_list (state_after (fix_page (run_ex 2 [Fix 1 True 1, Unfix 1 False]) 2 False 2))
       = Some [1, 2]"
  using ex3(1-7,9) by simp

end
